theory Spec2Isabelle
  imports Main "HOL-Library.Word" "HOL-Library.Char_ord" "HOL-Library.List_Lexorder"
begin

section \<open>Exceptions\<close>

text \<open>
  The exceptions the repository throws are \<^verbatim>\<open>std::length_error\<close> (pool constructor),
  \<^verbatim>\<open>std::runtime_error\<close> (pool used after termination) and \<^verbatim>\<open>std::out_of_range\<close>
  (test framework). A task body may throw anything; \<open>Task_failure\<close> stands for those.
  Two exceptions come from the standard library: \<^verbatim>\<open>std::bad_function_call\<close>, thrown by
  the call of an empty \<^verbatim>\<open>std::function\<close>, and the \<^verbatim>\<open>std::future_error\<close> with the code
  \<^verbatim>\<open>broken_promise\<close>, stored in the shared state of a packaged task that is destroyed
  before it was called.
\<close>

datatype exn =
    Length_error string
  | Runtime_error string
  | Out_of_range string
  | Task_failure string
  | Bad_function_call
  | Broken_promise

section \<open>The test framework (framework.h, framework.cpp)\<close>

text \<open>
  What a call \<^verbatim>\<open>test()\<close> of a registered \<^verbatim>\<open>std::function<void()>\<close> does, as far as
  \<^verbatim>\<open>Framework::run\<close> can tell: it returns, it throws something derived from
  \<^verbatim>\<open>std::exception\<close> (with its \<^verbatim>\<open>what()\<close>), or it throws anything else.
\<close>

datatype test_outcome = Test_returns | Test_throws string | Test_throws_other

type_synonym test_fn = "unit \<Rightarrow> test_outcome"

text \<open>
  \<^verbatim>\<open>tests\<close> is a \<^verbatim>\<open>std::map<std::string, std::function<void()>>\<close>: an association list
  kept in key order with no duplicate key, since \<^verbatim>\<open>run_all\<close> iterates it in order.
  \<^verbatim>\<open>results\<close> is a \<^verbatim>\<open>std::map<std::string, std::optional<std::string>>\<close>: a map whose
  value \<open>None\<close> is the empty optional (the test passed). The field \<open>calls\<close> is not in
  the class: it logs the names whose callable \<^verbatim>\<open>run\<close> invoked, the only effect of
  \<^verbatim>\<open>test()\<close> this model keeps.
\<close>

record framework =
  tests :: "(string \<times> test_fn) list"
  results :: "string \<rightharpoonup> string option"
  calls :: "string list"

definition Framework :: framework where
  "Framework = \<lparr>tests = [], results = Map.empty, calls = []\<rparr>"

definition contains :: "framework \<Rightarrow> string \<Rightarrow> bool" where
  "contains fr name = (map_of (tests fr) name \<noteq> None)"

definition executed :: "framework \<Rightarrow> string \<Rightarrow> bool" where
  "executed fr name = (results fr name \<noteq> None)"

text \<open>
  \<^verbatim>\<open>std::map::emplace\<close> inserts only when the key is absent; the insertion keeps the
  key order.
\<close>

definition map_emplace :: "string \<Rightarrow> test_fn \<Rightarrow> (string \<times> test_fn) list \<Rightarrow> (string \<times> test_fn) list" where
  "map_emplace name func kvs =
     (if map_of kvs name \<noteq> None then kvs else insort_key fst (name, func) kvs)"

definition emplace :: "string \<Rightarrow> test_fn \<Rightarrow> framework \<Rightarrow> framework" where
  "emplace name func fr =
     fr\<lparr>tests := map_emplace name func (tests fr), results := (results fr)(name := None)\<rparr>"

text \<open>
  \<^verbatim>\<open>Framework::run\<close>: throws when the name is not registered, returns at once when a
  result is recorded, and otherwise calls the test and records what happened.
  \<^verbatim>\<open>results.emplace\<close> finds no entry there, since \<^verbatim>\<open>executed\<close> was false.
\<close>

definition run :: "string \<Rightarrow> framework \<Rightarrow> exn + framework" where
  "run name fr =
     (case map_of (tests fr) name of
        None \<Rightarrow> Inl (Out_of_range ''Provided name is not registered.'')
      | Some test \<Rightarrow>
          if executed fr name then Inr fr
          else
            (case test () of
               Test_throws what \<Rightarrow>
                 Inr (fr\<lparr>results := (results fr)(name \<mapsto> Some what), calls := calls fr @ [name]\<rparr>)
             | Test_throws_other \<Rightarrow>
                 Inr (fr\<lparr>results := (results fr)(name \<mapsto> Some ''Caught unknown exception.''),
                        calls := calls fr @ [name]\<rparr>)
             | Test_returns \<Rightarrow>
                 Inr (fr\<lparr>results := (results fr)(name \<mapsto> None), calls := calls fr @ [name]\<rparr>)))"

text \<open>The loop of \<^verbatim>\<open>run_all\<close> over the keys of \<^verbatim>\<open>tests\<close>, in order.\<close>

fun run_each :: "string list \<Rightarrow> framework \<Rightarrow> exn + framework" where
  "run_each [] fr = Inr fr"
| "run_each (name # names) fr =
     (case run name fr of Inl e \<Rightarrow> Inl e | Inr fr' \<Rightarrow> run_each names fr')"

definition run_all :: "framework \<Rightarrow> exn + framework" where
  "run_all fr = run_each (map fst (tests fr)) fr"

text \<open>The outcome \<^verbatim>\<open>run\<close> records for a call of \<open>test\<close>.\<close>

definition recorded :: "test_fn \<Rightarrow> string option" where
  "recorded test =
     (case test () of
        Test_returns \<Rightarrow> None
      | Test_throws what \<Rightarrow> Some what
      | Test_throws_other \<Rightarrow> Some ''Caught unknown exception.'')"

text \<open>
  Two callables for the examples, and a framework that registered \<^verbatim>\<open>"apply"\<close> with the
  passing one and ran it.
\<close>

definition passing :: test_fn where
  "passing = (\<lambda>_. Test_returns)"

definition failing :: test_fn where
  "failing = (\<lambda>_. Test_throws ''Default assert_true message.'')"

definition ran_apply :: framework where
  "ran_apply = \<lparr>tests = [(''apply'', passing)], results = [''apply'' \<mapsto> None], calls = [''apply'']\<rparr>"

section \<open>The thread pool (pool.h)\<close>

subsection \<open>Tasks, futures and threads\<close>

text \<open>The two values of the template parameter, from \<^verbatim>\<open>namespace Policy\<close>.\<close>

definition JOIN :: bool where
  "JOIN = True"

definition TERMINATE :: bool where
  "TERMINATE = False"

text \<open>
  An entry of the queue is the closure \<^verbatim>\<open>[job]() { (*job)(); }\<close> over a shared pointer
  to a \<^verbatim>\<open>std::packaged_task\<close> built from \<^verbatim>\<open>std::bind(func, args...)\<close>. The model keeps
  the callable and its bound argument (a tuple when there are several), the address
  \<open>cell\<close> of the task's shared state, and whether the task is a
  \<^verbatim>\<open>packaged_task<void()>\<close> (\<^verbatim>\<open>apply\<close> and \<^verbatim>\<open>map\<close>), which drops the value the call
  returns. A callable returns a value or throws: \<open>Inl\<close> is the exception.
\<close>

datatype ('a, 'r) job =
  Job (cell: nat) (discards: bool) (callable: "'a \<Rightarrow> exn + 'r") (bound: 'a)

text \<open>
  The parameter \<^verbatim>\<open>Func&& func\<close> of \<^verbatim>\<open>map\<close> and \<^verbatim>\<open>map_get\<close>, which both run
  \<^verbatim>\<open>std::bind(std::forward<Func>(func), *it)\<close> once for every element. An lvalue stays
  an lvalue under \<^verbatim>\<open>std::forward\<close>, \<^verbatim>\<open>std::bind\<close> copies it and it is the same
  callable for the next element. An rvalue is moved into the bind expression; the
  second component of \<open>Rvalue\<close> is the callable that the move leaves behind in \<^verbatim>\<open>func\<close>,
  which depends on the type of the callable: the callable itself for a function pointer
  or a lambda without captures, an empty function for a \<^verbatim>\<open>std::function\<close>. A move from
  what was left behind leaves it as it is. \<open>target\<close> is what one call of \<^verbatim>\<open>std::bind\<close>
  stores, \<open>after_bind\<close> is \<^verbatim>\<open>func\<close> after that call. (\<^verbatim>\<open>apply\<close> and \<^verbatim>\<open>apply_get\<close> bind
  once, so for them only the callable matters.)
\<close>

datatype ('a, 'r) forwarded =
    Lvalue "'a \<Rightarrow> exn + 'r"
  | Rvalue "'a \<Rightarrow> exn + 'r" "'a \<Rightarrow> exn + 'r"

fun target :: "('a, 'r) forwarded \<Rightarrow> 'a \<Rightarrow> exn + 'r" where
  "target (Lvalue f) = f"
| "target (Rvalue f left) = f"

fun after_bind :: "('a, 'r) forwarded \<Rightarrow> ('a, 'r) forwarded" where
  "after_bind (Lvalue f) = Lvalue f"
| "after_bind (Rvalue f left) = Rvalue left left"

text \<open>
  The shared state of a packaged task, as the standard library defines it:
  \<^verbatim>\<open>operator()\<close> calls the stored callable and makes the state ready with the value
  returned, or with the exception thrown, which it catches. \<^verbatim>\<open>future::get\<close> blocks
  while the state is not ready (\<open>None\<close>), then returns the value or rethrows the
  exception. The destructor of a packaged task that was never called makes its state
  ready with \<open>Broken_promise\<close>.
\<close>

datatype 'r future_state = Pending | Ready_value 'r | Ready_void | Ready_exception exn

definition invoke_task :: "('a, 'r) job \<Rightarrow> 'r future_state" where
  "invoke_task job =
     (case callable job (bound job) of
        Inl e \<Rightarrow> Ready_exception e
      | Inr v \<Rightarrow> if discards job then Ready_void else Ready_value v)"

fun future_get :: "'r future_state \<Rightarrow> (exn + 'r option) option" where
  "future_get Pending = None"
| "future_get (Ready_value v) = Some (Inr (Some v))"
| "future_get Ready_void = Some (Inr None)"
| "future_get (Ready_exception e) = Some (Inl e)"

text \<open>
  Where a worker thread stands in \<^verbatim>\<open>worker_func\<close>: about to take the lock at the top of
  the loop, blocked in \<^verbatim>\<open>worker_cv.wait\<close>, running \<^verbatim>\<open>job()\<close> with the lock released, or
  returned.
\<close>

datatype ('a, 'r) worker = W_loop | W_wait | W_run "('a, 'r) job" | W_exit

text \<open>
  Where a calling thread stands: outside any call (\<open>Idle\<close>, or with the value returned
  or the exception thrown by its last call), or inside a call of the pool between two
  atomic actions. \<open>In_apply\<close> to \<open>In_map_get\<close>: after the test of \<^verbatim>\<open>stop\<close>, before
  taking the lock. \<open>In_join d\<close>: in the loop of \<^verbatim>\<open>join\<close>, and \<open>d\<close> holds when the
  destructor called it. \<open>At_terminate\<close>: the destructor, about to call \<^verbatim>\<open>terminate\<close>.
  \<open>In_terminate d k\<close>: in the loop of \<^verbatim>\<open>terminate\<close>, about to join worker \<open>k\<close>, and
  \<open>d\<close> holds when the destructor called it.
\<close>

datatype ret = Ret_void | Ret_future nat | Ret_futures "nat list"

datatype ('a, 'r) client =
    Idle
  | Returned ret
  | Raised exn
  | In_apply "'a \<Rightarrow> exn + 'r" 'a
  | In_apply_get "'a \<Rightarrow> exn + 'r" 'a
  | In_map "('a, 'r) forwarded" "'a list"
  | In_map_get "('a, 'r) forwarded" "'a list"
  | In_join bool
  | At_terminate
  | In_terminate bool nat

fun at_boundary :: "('a, 'r) client \<Rightarrow> bool" where
  "at_boundary Idle = True"
| "at_boundary (Returned v) = True"
| "at_boundary (Raised e) = True"
| "at_boundary c = False"

text \<open>
  The members \<^verbatim>\<open>workers\<close>, \<^verbatim>\<open>tasks\<close> and \<^verbatim>\<open>stop\<close> are the class's. \<^verbatim>\<open>task_mutex\<close> is
  the atomicity of the steps below: each step is one critical section, or one access
  to the atomic \<^verbatim>\<open>stop\<close>. The two condition variables have no field: a thread
  blocked in \<^verbatim>\<open>wait\<close> tests its condition again whenever it is scheduled (the
  standard allows spurious wake-ups), so the model says when a thread may proceed,
  not whether it is ever woken. \<open>shared\<close> is the heap of shared states and
  \<open>next_cell\<close> the next free address (\<^verbatim>\<open>std::make_shared\<close>). \<open>clients\<close> are the
  calling threads. \<open>enq_log\<close> and \<open>deq_log\<close> are not in the class: they record every
  \<^verbatim>\<open>tasks.push\<close> and every \<^verbatim>\<open>tasks.pop\<close>, in order. \<open>destroyed\<close> holds once the
  destructor has destroyed the members; \<open>tasks\<close> is then the queue as it was destroyed.
\<close>

record ('a, 'r) pool =
  policy :: bool
  workers :: "('a, 'r) worker list"
  tasks :: "('a, 'r) job list"
  stop :: bool
  shared :: "nat \<Rightarrow> 'r future_state"
  next_cell :: nat
  clients :: "nat \<Rightarrow> ('a, 'r) client"
  enq_log :: "('a, 'r) job list"
  deq_log :: "('a, 'r) job list"
  destroyed :: bool

subsection \<open>Construction\<close>

text \<open>
  The loop \<^verbatim>\<open>for (unsigned i = 0; i < num_workers; ++i) workers.emplace_back(worker_func)\<close>;
  a new thread starts at the top of \<^verbatim>\<open>worker_func\<close>.
\<close>

function spawn :: "32 word \<Rightarrow> 32 word \<Rightarrow> ('a, 'r) worker list \<Rightarrow> ('a, 'r) worker list" where
  "spawn i num_workers ws =
     (if i < num_workers then spawn (i + 1) num_workers (ws @ [W_loop]) else ws)"
  by pat_completeness auto
termination
proof (relation "measure (\<lambda>(i, num_workers, ws). unat num_workers - unat i)")
  show "wf (measure (\<lambda>(i, num_workers, ws). unat num_workers - unat i))" by simp
next
  fix i num_workers :: "32 word" and ws :: "('a, 'r) worker list"
  assume "i < num_workers"
  then have "unat num_workers - unat (i + 1) < unat num_workers - unat i"
    by unat_arith
  then show "((i + 1, num_workers, ws @ [W_loop]), (i, num_workers, ws))
      \<in> measure (\<lambda>(i, num_workers, ws). unat num_workers - unat i)"
    by simp
qed

declare spawn.simps [simp del]

definition thread_pool :: "bool \<Rightarrow> 32 word \<Rightarrow> exn + ('a, 'r) pool" where
  "thread_pool Policy num_workers =
     (if num_workers = 0 then Inl (Length_error ''Number of workers must be positive.'')
      else Inr \<lparr>policy = Policy, workers = spawn 0 num_workers [], tasks = [], stop = False,
                shared = (\<lambda>_. Pending), next_cell = 0, clients = (\<lambda>_. Idle),
                enq_log = [], deq_log = [], destroyed = False\<rparr>)"

text \<open>
  The default constructor; \<open>hardware_concurrency\<close> is what
  \<^verbatim>\<open>std::thread::hardware_concurrency()\<close> reports on the host.
\<close>

definition thread_pool_default :: "bool \<Rightarrow> 32 word \<Rightarrow> exn + ('a, 'r) pool" where
  "thread_pool_default Policy hardware_concurrency = thread_pool Policy hardware_concurrency"

text \<open>The pool a successful construction returns, with \<open>k\<close> workers.\<close>

definition fresh_pool :: "bool \<Rightarrow> nat \<Rightarrow> ('a, 'r) pool" where
  "fresh_pool Policy k =
     \<lparr>policy = Policy, workers = replicate k W_loop, tasks = [], stop = False,
      shared = (\<lambda>_. Pending), next_cell = 0, clients = (\<lambda>_. Idle),
      enq_log = [], deq_log = [], destroyed = False\<rparr>"

definition pool_size :: "('a, 'r) pool \<Rightarrow> nat" where
  "pool_size s = length (workers s)"

subsection \<open>The worker loop\<close>

text \<open>
  One turn of a worker, from taking the lock to releasing it: \<^verbatim>\<open>stop\<close> set means
  return; an empty queue means \<^verbatim>\<open>worker_cv.wait\<close>; otherwise the front of the queue is
  moved out and popped. A worker in \<^verbatim>\<open>wait\<close> that is scheduled does the same test.
  The source loads \<^verbatim>\<open>stop\<close> twice under the lock, in the loop condition and after it;
  the flag only goes from false to true and the worker does nothing between the two
  loads, so the step reads it once, at the second load.
\<close>

definition worker_take :: "nat \<Rightarrow> ('a, 'r) pool \<Rightarrow> ('a, 'r) pool" where
  "worker_take i s =
     (if stop s then s\<lparr>workers := (workers s)[i := W_exit]\<rparr>
      else
        (case tasks s of
           [] \<Rightarrow> s\<lparr>workers := (workers s)[i := W_wait]\<rparr>
         | job # rest \<Rightarrow>
             s\<lparr>workers := (workers s)[i := W_run job], tasks := rest,
               deq_log := deq_log s @ [job]\<rparr>))"

text \<open>
  \<^verbatim>\<open>job(); this->join_cv.notify_one();\<close> and back to the top of the loop. The call
  of the packaged task never throws into the worker: the task's shared state takes
  the value or the exception.
\<close>

definition worker_run :: "nat \<Rightarrow> ('a, 'r) job \<Rightarrow> ('a, 'r) pool \<Rightarrow> ('a, 'r) pool" where
  "worker_run i job s =
     s\<lparr>workers := (workers s)[i := W_loop],
       shared := (shared s)(cell job := invoke_task job)\<rparr>"

definition worker_func :: "nat \<Rightarrow> ('a, 'r) pool \<Rightarrow> ('a, 'r) pool" where
  "worker_func i s =
     (case workers s ! i of
        W_loop \<Rightarrow> worker_take i s
      | W_wait \<Rightarrow> worker_take i s
      | W_run job \<Rightarrow> worker_run i job s
      | W_exit \<Rightarrow> s)"

subsection \<open>The calls of the pool\<close>

definition stopped_error :: exn where
  "stopped_error = Runtime_error ''Thread pool invoked after it was terminated.''"

definition set_client :: "nat \<Rightarrow> ('a, 'r) client \<Rightarrow> ('a, 'r) pool \<Rightarrow> ('a, 'r) pool" where
  "set_client c pc s = s\<lparr>clients := (clients s)(c := pc)\<rparr>"

text \<open>
  \<^verbatim>\<open>std::make_shared<std::packaged_task<...>>(std::bind(func, args...))\<close> followed by
  \<^verbatim>\<open>tasks.push([job]() { (*job)(); })\<close>: a new shared state, and the task at the back of
  the queue.
\<close>

definition push :: "bool \<Rightarrow> ('a \<Rightarrow> exn + 'r) \<Rightarrow> 'a \<Rightarrow> ('a, 'r) pool \<Rightarrow> ('a, 'r) pool" where
  "push void func arg s =
     s\<lparr>tasks := tasks s @ [Job (next_cell s) void func arg],
       enq_log := enq_log s @ [Job (next_cell s) void func arg],
       next_cell := Suc (next_cell s)\<rparr>"

text \<open>
  The loops of \<^verbatim>\<open>map\<close> and \<^verbatim>\<open>map_get\<close> over the range, inside one critical section.
  Every iteration binds \<^verbatim>\<open>std::forward<Func>(func)\<close> to the element, so the task of
  the first element gets the callable and, when the callable was passed as an rvalue,
  the tasks of the other elements get what the first move left behind.
\<close>

fun map_loop :: "('a, 'r) forwarded \<Rightarrow> 'a list \<Rightarrow> ('a, 'r) pool \<Rightarrow> ('a, 'r) pool" where
  "map_loop func [] s = s"
| "map_loop func (x # xs) s = map_loop (after_bind func) xs (push True (target func) x s)"

fun map_get_loop ::
  "('a, 'r) forwarded \<Rightarrow> 'a list \<Rightarrow> nat list \<Rightarrow> ('a, 'r) pool \<Rightarrow> nat list \<times> ('a, 'r) pool" where
  "map_get_loop func [] futures s = (futures, s)"
| "map_get_loop func (x # xs) futures s =
     map_get_loop (after_bind func) xs (futures @ [next_cell s]) (push False (target func) x s)"

text \<open>
  The end of the destructor, after its body: the members are destroyed, and with
  \<^verbatim>\<open>tasks\<close> every closure still in the queue and the packaged task it owns. A task
  that was never called makes its shared state ready with \<open>Broken_promise\<close>.
\<close>

fun abandon :: "('a, 'r) job list \<Rightarrow> (nat \<Rightarrow> 'r future_state) \<Rightarrow> nat \<Rightarrow> 'r future_state" where
  "abandon [] sh = sh"
| "abandon (job # jobs) sh =
     abandon jobs (if sh (cell job) = Pending then sh(cell job := Ready_exception Broken_promise) else sh)"

definition destroy_members :: "('a, 'r) pool \<Rightarrow> ('a, 'r) pool" where
  "destroy_members s = s\<lparr>shared := abandon (tasks s) (shared s), destroyed := True\<rparr>"

text \<open>
  \<^verbatim>\<open>terminate\<close> returns; \<open>d\<close> holds when the destructor called it, which then ends.
\<close>

definition terminate_return :: "bool \<Rightarrow> nat \<Rightarrow> ('a, 'r) pool \<Rightarrow> ('a, 'r) pool" where
  "terminate_return d c s = set_client c (Returned Ret_void) (if d then destroy_members s else s)"

text \<open>
  \<^verbatim>\<open>terminate\<close> from \<^verbatim>\<open>stop.exchange(true)\<close> to the start of its loop over the workers.
\<close>

definition terminate_exchange :: "bool \<Rightarrow> nat \<Rightarrow> ('a, 'r) pool \<Rightarrow> ('a, 'r) pool" where
  "terminate_exchange d c s =
     (if stop s then terminate_return d c s
      else set_client c (In_terminate d 0) (s\<lparr>stop := True\<rparr>))"

text \<open>
  What a thread calls: the four submissions, \<^verbatim>\<open>join\<close>, \<^verbatim>\<open>terminate\<close> and the
  destructor. \<open>invoke\<close> is the first atomic action of the call: the test of \<^verbatim>\<open>stop\<close>
  that throws, or the exchange of \<^verbatim>\<open>terminate\<close>. The destructor is
  \<^verbatim>\<open>if (Policy == Policy::JOIN) join(); terminate();\<close> followed by the destruction of
  the members, and an exception of \<^verbatim>\<open>join\<close> leaves it.
\<close>

datatype ('a, 'r) call =
    Call_apply "'a \<Rightarrow> exn + 'r" 'a
  | Call_apply_get "'a \<Rightarrow> exn + 'r" 'a
  | Call_map "('a, 'r) forwarded" "'a list"
  | Call_map_get "('a, 'r) forwarded" "'a list"
  | Call_join
  | Call_terminate
  | Call_destroy

fun invoke :: "nat \<Rightarrow> ('a, 'r) call \<Rightarrow> ('a, 'r) pool \<Rightarrow> ('a, 'r) pool" where
  "invoke c (Call_apply func arg) s =
     set_client c (if stop s then Raised stopped_error else In_apply func arg) s"
| "invoke c (Call_apply_get func arg) s =
     set_client c (if stop s then Raised stopped_error else In_apply_get func arg) s"
| "invoke c (Call_map func xs) s =
     set_client c (if stop s then Raised stopped_error else In_map func xs) s"
| "invoke c (Call_map_get func xs) s =
     set_client c (if stop s then Raised stopped_error else In_map_get func xs) s"
| "invoke c Call_join s =
     set_client c (if stop s then Raised stopped_error else In_join False) s"
| "invoke c Call_terminate s = terminate_exchange False c s"
| "invoke c Call_destroy s =
     (if policy s = JOIN
      then set_client c (if stop s then Raised stopped_error else In_join True) s
      else terminate_exchange True c s)"

text \<open>
  The next atomic action of a thread inside a call. A submission takes the lock,
  pushes and returns. \<^verbatim>\<open>join\<close> takes the lock and returns when the queue is empty, and
  waits otherwise. The loop of \<^verbatim>\<open>terminate\<close> joins worker \<open>k\<close>, which blocks until
  that worker has returned.
\<close>

definition resume :: "nat \<Rightarrow> ('a, 'r) pool \<Rightarrow> ('a, 'r) pool" where
  "resume c s =
     (case clients s c of
        In_apply func arg \<Rightarrow> set_client c (Returned Ret_void) (push True func arg s)
      | In_apply_get func arg \<Rightarrow>
          set_client c (Returned (Ret_future (next_cell s))) (push False func arg s)
      | In_map func xs \<Rightarrow> set_client c (Returned Ret_void) (map_loop func xs s)
      | In_map_get func xs \<Rightarrow>
          (case map_get_loop func xs [] s of
             (futures, s') \<Rightarrow> set_client c (Returned (Ret_futures futures)) s')
      | In_join d \<Rightarrow>
          if tasks s \<noteq> [] then s
          else if d then set_client c At_terminate s
          else set_client c (Returned Ret_void) s
      | At_terminate \<Rightarrow> terminate_exchange True c s
      | In_terminate d k \<Rightarrow>
          if k < length (workers s)
          then (if workers s ! k = W_exit then set_client c (In_terminate d (Suc k)) s else s)
          else terminate_return d c s
      | _ \<Rightarrow> s)"

subsection \<open>Interleavings\<close>

text \<open>
  A schedule is the list of the atomic actions of a run, in the order they happen:
  worker \<open>i\<close> takes a turn, thread \<open>c\<close> starts a call, or thread \<open>c\<close> goes on with
  the call it is in. An action that cannot happen (a worker that does not exist, a
  call by a thread that is inside one, a blocked thread) leaves the state as it is.
\<close>

datatype ('a, 'r) event = Worker nat | Invoke nat "('a, 'r) call" | Resume nat

fun step :: "('a, 'r) event \<Rightarrow> ('a, 'r) pool \<Rightarrow> ('a, 'r) pool" where
  "step (Worker i) s = (if i < length (workers s) then worker_func i s else s)"
| "step (Invoke c call) s = (if at_boundary (clients s c) then invoke c call s else s)"
| "step (Resume c) s = resume c s"

fun exec :: "('a, 'r) event list \<Rightarrow> ('a, 'r) pool \<Rightarrow> ('a, 'r) pool" where
  "exec [] s = s"
| "exec (e # es) s = exec es (step e s)"

text \<open>The thread that an action belongs to, when it is a calling thread.\<close>

fun caller :: "('a, 'r) event \<Rightarrow> nat option" where
  "caller (Worker i) = None"
| "caller (Invoke c call) = Some c"
| "caller (Resume c) = Some c"

text \<open>
  The actions of a run in which thread \<open>c\<close> is alone with the workers: no thread starts
  a call and no other thread goes on with one.
\<close>

fun quiet :: "nat \<Rightarrow> ('a, 'r) event \<Rightarrow> bool" where
  "quiet c (Worker i) = True"
| "quiet c (Invoke c' call) = False"
| "quiet c (Resume c') = (c' = c)"

subsection \<open>Invariants of the pool\<close>

text \<open>
  What holds in every state a pool reaches: the queue is what was pushed and not yet
  popped; every task pushed has its own shared state, allocated before; a task a
  worker runs was popped; a shared state that is ready holds the outcome of a task
  that was popped and has that state, or \<open>Broken_promise\<close> when the pool is destroyed
  and a task in the destroyed queue has that state; a task that was popped is done or
  in the hands of a worker; a destroyed pool is stopped; and a thread is in the loop of
  \<^verbatim>\<open>terminate\<close> only when the pool is stopped.
\<close>

definition fifo :: "('a, 'r) pool \<Rightarrow> bool" where
  "fifo s = (enq_log s = deq_log s @ tasks s)"

definition cells_fresh :: "('a, 'r) pool \<Rightarrow> bool" where
  "cells_fresh s = ((\<forall>j \<in> set (enq_log s). cell j < next_cell s) \<and> distinct (map cell (enq_log s)))"

definition running_logged :: "('a, 'r) pool \<Rightarrow> bool" where
  "running_logged s = (\<forall>i < length (workers s). \<forall>j. workers s ! i = W_run j \<longrightarrow> j \<in> set (deq_log s))"

definition results_sound :: "('a, 'r) pool \<Rightarrow> bool" where
  "results_sound s =
     (\<forall>k. shared s k \<noteq> Pending \<longrightarrow>
        (\<exists>j \<in> set (deq_log s). cell j = k \<and> shared s k = invoke_task j)
        \<or> (destroyed s \<and> k \<in> cell ` set (tasks s) \<and> shared s k = Ready_exception Broken_promise))"

definition dequeued_accounted :: "('a, 'r) pool \<Rightarrow> bool" where
  "dequeued_accounted s =
     (\<forall>j \<in> set (deq_log s). shared s (cell j) \<noteq> Pending \<or> (\<exists>i < length (workers s). workers s ! i = W_run j))"

definition stopped_when_destroyed :: "('a, 'r) pool \<Rightarrow> bool" where
  "stopped_when_destroyed s = (destroyed s \<longrightarrow> stop s)"

definition stopped_when_terminating :: "('a, 'r) pool \<Rightarrow> bool" where
  "stopped_when_terminating s = (\<forall>c d k. clients s c = In_terminate d k \<longrightarrow> stop s)"

definition inv :: "('a, 'r) pool \<Rightarrow> bool" where
  "inv s = (fifo s \<and> cells_fresh s \<and> running_logged s \<and> results_sound s \<and> dequeued_accounted s
     \<and> stopped_when_destroyed s \<and> stopped_when_terminating s)"

text \<open>The tasks that a loop of \<^verbatim>\<open>map\<close> or \<^verbatim>\<open>map_get\<close> pushes, and the loop as one update.\<close>

fun jobs_from :: "nat \<Rightarrow> bool \<Rightarrow> ('a, 'r) forwarded \<Rightarrow> 'a list \<Rightarrow> ('a, 'r) job list" where
  "jobs_from n void func [] = []"
| "jobs_from n void func (x # xs) =
     Job n void (target func) x # jobs_from (Suc n) void (after_bind func) xs"

text \<open>The callable that the task of element \<open>i\<close> gets.\<close>

fun nth_bound :: "('a, 'r) forwarded \<Rightarrow> nat \<Rightarrow> 'a \<Rightarrow> exn + 'r" where
  "nth_bound func 0 = target func"
| "nth_bound func (Suc i) = nth_bound (after_bind func) i"

definition push_all :: "bool \<Rightarrow> ('a, 'r) forwarded \<Rightarrow> 'a list \<Rightarrow> ('a, 'r) pool \<Rightarrow> ('a, 'r) pool" where
  "push_all void func xs s =
     s\<lparr>tasks := tasks s @ jobs_from (next_cell s) void func xs,
       enq_log := enq_log s @ jobs_from (next_cell s) void func xs,
       next_cell := next_cell s + length xs\<rparr>"

text \<open>
  Where the destructor stands, for a thread \<open>c\<close> that runs it alone with the workers:
  \<open>draining\<close> under the policy \<^verbatim>\<open>JOIN\<close>, \<open>stopping\<close> under \<^verbatim>\<open>TERMINATE\<close>.
\<close>

definition all_exited :: "('a, 'r) pool \<Rightarrow> bool" where
  "all_exited s = (\<forall>i < length (workers s). workers s ! i = W_exit)"

fun draining :: "('a, 'r) pool \<Rightarrow> ('a, 'r) client \<Rightarrow> bool" where
  "draining s (In_join d) = (d \<and> \<not> stop s)"
| "draining s At_terminate = (\<not> stop s \<and> tasks s = [])"
| "draining s (In_terminate d k) =
     (d \<and> stop s \<and> tasks s = [] \<and> (\<forall>i < k. i < length (workers s) \<longrightarrow> workers s ! i = W_exit))"
| "draining s (Returned v) = (stop s \<and> tasks s = [] \<and> all_exited s)"
| "draining s pc = False"

fun stopping :: "('a, 'r) pool \<Rightarrow> ('a, 'r) client \<Rightarrow> bool" where
  "stopping s (In_terminate d k) =
     (d \<and> stop s \<and> (\<forall>i < k. i < length (workers s) \<longrightarrow> workers s ! i = W_exit))"
| "stopping s (Returned v) =
     (stop s \<and> all_exited s \<and> (\<forall>j \<in> set (tasks s). shared s (cell j) \<noteq> Pending))"
| "stopping s pc = False"

subsection \<open>Example callables, pools and runs\<close>

text \<open>
  \<open>add\<close> and \<open>collatz\<close> are the callables of \<^verbatim>\<open>test_apply_get\<close> and \<^verbatim>\<open>test_map_get\<close>;
  \<open>nap\<close> is a task that sleeps and returns nothing, as in \<^verbatim>\<open>test_apply\<close> and
  \<^verbatim>\<open>test_map\<close>; \<open>boom\<close> is a task that throws; \<open>empty_function\<close> is a
  \<^verbatim>\<open>std::function\<close> that was moved from.
\<close>

definition add :: "int \<times> int \<Rightarrow> int" where
  "add = (\<lambda>(x, y). x + y)"

definition collatz :: "32 word \<Rightarrow> 32 word" where
  "collatz x = (if x mod 2 = 0 then x div 2 else 3 * x + 1)"

definition nap :: "nat \<Rightarrow> exn + unit" where
  "nap = (\<lambda>ms. Inr ())"

definition boom :: "nat \<Rightarrow> exn + unit" where
  "boom = (\<lambda>x. Inl (Task_failure ''boom''))"

definition empty_function :: "'a \<Rightarrow> exn + 'r" where
  "empty_function = (\<lambda>x. Inl Bad_function_call)"

text \<open>A pool with one worker on which \<^verbatim>\<open>terminate\<close> has run to its end.\<close>

definition terminated_pool :: "bool \<Rightarrow> (nat, unit) pool" where
  "terminated_pool Policy =
     exec [Invoke 0 Call_terminate, Worker 0, Resume 0, Resume 0] (fresh_pool Policy 1)"

text \<open>
  A pool with one worker that has popped a task whose body throws, with a second task
  behind it.
\<close>

definition throwing_pool :: "(nat, unit) pool" where
  "throwing_pool =
     exec [Invoke 0 (Call_apply boom 1), Resume 0, Invoke 0 (Call_apply_get nap 5), Resume 0, Worker 0]
       (fresh_pool TERMINATE 1)"

text \<open>
  A pool with one worker that has popped the only task and is running it, while a
  thread calls \<^verbatim>\<open>join\<close>.
\<close>

definition busy_pool :: "(nat, unit) pool" where
  "busy_pool =
     exec [Invoke 0 (Call_apply nap 15), Resume 0, Worker 0, Invoke 0 Call_join]
       (fresh_pool TERMINATE 1)"

text \<open>
  The pool of \<^verbatim>\<open>test_map_get\<close> with two workers, after \<^verbatim>\<open>map_get(collatz, ...)\<close> over
  \<open>[1, 2, 3]\<close> has returned; then worker 1 finishes the second task while worker 0
  still runs the first; then all three tasks are done.
\<close>

definition mapped_pool :: "(32 word, 32 word) pool" where
  "mapped_pool =
     exec [Invoke 0 (Call_map_get (Lvalue (\<lambda>x. Inr (collatz x))) [1, 2, 3]), Resume 0]
       (fresh_pool TERMINATE 2)"

definition mapped_early :: "(32 word, 32 word) pool" where
  "mapped_early = exec [Worker 0, Worker 1, Worker 1] mapped_pool"

definition mapped_late :: "(32 word, 32 word) pool" where
  "mapped_late = exec [Worker 1, Worker 0, Worker 1] mapped_early"

text \<open>
  The same call with the callable passed as an rvalue \<^verbatim>\<open>std::function\<close>, on a pool with
  one worker, which then runs the three tasks.
\<close>

definition moved_pool :: "(32 word, 32 word) pool" where
  "moved_pool =
     exec [Invoke 0 (Call_map_get (Rvalue (\<lambda>x. Inr (collatz x)) empty_function) [1, 2, 3]), Resume 0]
       (fresh_pool TERMINATE 1)"

definition moved_done :: "(32 word, 32 word) pool" where
  "moved_done = exec [Worker 0, Worker 0, Worker 0, Worker 0, Worker 0, Worker 0] moved_pool"



section \<open>Facts about the model\<close>

subsection \<open>The registry of the test framework\<close>

lemma map_emplace_registered:
  "map_of kvs name = Some old \<Longrightarrow> map_emplace name func kvs = kvs"
  by (simp add: map_emplace_def)

lemma map_emplace_sorted:
  "sorted (map fst kvs) \<Longrightarrow> sorted (map fst (map_emplace name func kvs))"
  by (simp add: map_emplace_def sorted_insort_key)

lemma run_tests: "run name fr = Inr fr' \<Longrightarrow> tests fr' = tests fr"
  by (auto simp: run_def split: option.splits if_splits test_outcome.splits)

lemma run_other:
  "run name fr = Inr fr' \<Longrightarrow> other \<noteq> name \<Longrightarrow> results fr' other = results fr other"
  by (auto simp: run_def split: option.splits if_splits test_outcome.splits)

lemma run_registered:
  "map_of (tests fr) name = Some test \<Longrightarrow> \<exists>fr'. run name fr = Inr fr'"
  by (auto simp: run_def split: test_outcome.splits)

lemma run_fresh:
  assumes "map_of (tests fr) name = Some test" and "results fr name = None"
  shows "\<exists>fr'. run name fr = Inr fr' \<and> results fr' name = Some (recorded test)
           \<and> calls fr' = calls fr @ [name]"
  using assms by (auto simp: run_def executed_def recorded_def split: test_outcome.splits)

lemma run_keeps:
  "run name fr = Inr fr' \<Longrightarrow> results fr other = Some r \<Longrightarrow> results fr' other = Some r"
  by (auto simp: run_def executed_def split: option.splits if_splits test_outcome.splits)

lemma run_each_tests: "run_each names fr = Inr fr' \<Longrightarrow> tests fr' = tests fr"
proof (induction names arbitrary: fr)
  case Nil
  then show ?case by simp
next
  case (Cons n names)
  then show ?case by (auto split: sum.splits dest: run_tests)
qed

lemma run_each_total:
  "set names \<subseteq> fst ` set (tests fr) \<Longrightarrow> \<exists>fr'. run_each names fr = Inr fr'"
proof (induction names arbitrary: fr)
  case Nil
  then show ?case by simp
next
  case (Cons n names)
  from Cons.prems have "n \<in> fst ` set (tests fr)" by simp
  then obtain test where "map_of (tests fr) n = Some test"
    by (metis domD dom_map_of_conv_image_fst)
  then obtain fr1 where r: "run n fr = Inr fr1"
    using run_registered by blast
  with Cons.prems have "set names \<subseteq> fst ` set (tests fr1)"
    by (simp add: run_tests)
  from Cons.IH [OF this] r show ?case by simp
qed

lemma run_each_keeps:
  "run_each names fr = Inr fr' \<Longrightarrow> results fr other = Some r \<Longrightarrow> results fr' other = Some r"
proof (induction names arbitrary: fr)
  case Nil
  then show ?case by simp
next
  case (Cons n names)
  then show ?case by (auto split: sum.splits dest: run_keeps)
qed

lemma run_executed:
  "run name fr = Inr fr' \<Longrightarrow> results fr name = Some r \<Longrightarrow> fr' = fr"
  by (auto simp: run_def executed_def split: option.splits if_splits)

lemma run_count_other:
  "run n fr = Inr fr' \<Longrightarrow> n \<noteq> name \<Longrightarrow> count_list (calls fr') name = count_list (calls fr) name"
  by (auto simp: run_def split: option.splits if_splits test_outcome.splits)

lemma run_each_done:
  "run_each names fr = Inr fr' \<Longrightarrow> results fr name = Some r \<Longrightarrow>
     results fr' name = Some r \<and> count_list (calls fr') name = count_list (calls fr) name"
proof (induction names arbitrary: fr)
  case Nil
  then show ?case by simp
next
  case (Cons n names)
  from Cons.prems(1) obtain fr1 where r: "run n fr = Inr fr1" and rest: "run_each names fr1 = Inr fr'"
    by (auto split: sum.splits)
  have "results fr1 name = Some r \<and> count_list (calls fr1) name = count_list (calls fr) name"
  proof (cases "n = name")
    case True
    with r Cons.prems(2) have "fr1 = fr" by (simp add: run_executed)
    with Cons.prems(2) show ?thesis by simp
  next
    case False
    with r Cons.prems(2) show ?thesis by (simp add: run_keeps run_count_other)
  qed
  with Cons.IH [OF rest] show ?case by simp
qed

lemma run_each_once:
  assumes "name \<in> set names" and "map_of (tests fr) name = Some test"
    and "results fr name = None" and "run_each names fr = Inr fr'"
  shows "results fr' name = Some (recorded test)
           \<and> count_list (calls fr') name = Suc (count_list (calls fr) name)"
  using assms
proof (induction names arbitrary: fr)
  case Nil
  then show ?case by simp
next
  case (Cons n names)
  from Cons.prems(4) obtain fr1 where r: "run n fr = Inr fr1" and rest: "run_each names fr1 = Inr fr'"
    by (auto split: sum.splits)
  show ?case
  proof (cases "n = name")
    case True
    from run_fresh [OF Cons.prems(2,3)] r True
    have "results fr1 name = Some (recorded test)" and "calls fr1 = calls fr @ [name]"
      by auto
    with run_each_done [OF rest, of name "recorded test"] show ?thesis
      by simp
  next
    case False
    with Cons.prems(1) have "name \<in> set names" by simp
    moreover from r Cons.prems(2) have "map_of (tests fr1) name = Some test"
      by (simp add: run_tests)
    moreover from r False Cons.prems(3) have "results fr1 name = None"
      by (simp add: run_other)
    moreover from r False have "count_list (calls fr1) name = count_list (calls fr) name"
      by (simp add: run_count_other)
    ultimately show ?thesis using Cons.IH [OF _ _ _ rest] by simp
  qed
qed

subsection \<open>The constructors and \<open>size\<close>\<close>

lemma spawn_replicate:
  "spawn i num_workers ws = ws @ replicate (unat num_workers - unat i) W_loop"
proof (induction i num_workers ws rule: spawn.induct)
  case (1 i num_workers ws)
  show ?case
  proof (cases "i < num_workers")
    case True
    then have "unat num_workers - unat i = Suc (unat num_workers - unat (i + 1))"
      by unat_arith
    with True "1.IH" show ?thesis
      by (subst spawn.simps) (simp add: replicate_app_Cons_same)
  next
    case False
    then have "unat num_workers - unat i = 0"
      by unat_arith
    with False show ?thesis
      by (subst spawn.simps) simp
  qed
qed

lemma length_spawn: "length (spawn 0 num_workers []) = unat num_workers"
  by (simp add: spawn_replicate)

subsection \<open>The invariants hold in every reachable state\<close>

lemmas inv_defs = inv_def fifo_def cells_fresh_def running_logged_def results_sound_def
  dequeued_accounted_def stopped_when_destroyed_def stopped_when_terminating_def

lemma invoke_task_ready [simp]: "invoke_task j \<noteq> Pending"
  by (simp add: invoke_task_def split: sum.splits)

lemma inv_thread_pool: "thread_pool P n = Inr s \<Longrightarrow> inv s"
  by (auto simp: thread_pool_def inv_defs spawn_replicate split: if_splits)

lemma inv_set_client:
  assumes "inv s" and "(\<forall>d k. pc \<noteq> In_terminate d k) \<or> stop s"
  shows "inv (set_client c pc s)"
proof -
  from assms have "stopped_when_terminating (set_client c pc s)"
    by (auto simp: inv_def stopped_when_terminating_def set_client_def)
  moreover have "fifo (set_client c pc s) = fifo s"
    and "cells_fresh (set_client c pc s) = cells_fresh s"
    and "running_logged (set_client c pc s) = running_logged s"
    and "results_sound (set_client c pc s) = results_sound s"
    and "dequeued_accounted (set_client c pc s) = dequeued_accounted s"
    and "stopped_when_destroyed (set_client c pc s) = stopped_when_destroyed s"
    by (simp_all add: fifo_def cells_fresh_def running_logged_def results_sound_def
        dequeued_accounted_def stopped_when_destroyed_def set_client_def)
  ultimately show ?thesis using assms(1) by (simp add: inv_def)
qed

lemma inv_stop:
  assumes "inv s"
  shows "inv (s\<lparr>stop := True\<rparr>)"
proof -
  have "fifo (s\<lparr>stop := True\<rparr>) = fifo s"
    and "cells_fresh (s\<lparr>stop := True\<rparr>) = cells_fresh s"
    and "running_logged (s\<lparr>stop := True\<rparr>) = running_logged s"
    and "results_sound (s\<lparr>stop := True\<rparr>) = results_sound s"
    and "dequeued_accounted (s\<lparr>stop := True\<rparr>) = dequeued_accounted s"
    and "stopped_when_destroyed (s\<lparr>stop := True\<rparr>)"
    and "stopped_when_terminating (s\<lparr>stop := True\<rparr>)"
    by (simp_all add: fifo_def cells_fresh_def running_logged_def results_sound_def
        dequeued_accounted_def stopped_when_destroyed_def stopped_when_terminating_def)
  with assms show ?thesis by (simp add: inv_def)
qed

lemma inv_push: "inv s \<Longrightarrow> inv (push v f x s)"
  unfolding inv_defs push_def by (auto simp: less_Suc_eq) blast+

lemma inv_map_loop: "inv s \<Longrightarrow> inv (map_loop f xs s)"
  by (induction xs arbitrary: s f) (simp_all add: inv_push)

lemma inv_map_get_loop: "inv s \<Longrightarrow> map_get_loop f xs hs s = (futures, s') \<Longrightarrow> inv s'"
proof (induction xs arbitrary: s hs f)
  case Nil
  then show ?case by simp
next
  case (Cons x xs)
  from Cons.prems(2)
  have "map_get_loop (after_bind f) xs (hs @ [next_cell s]) (push False (target f) x s) = (futures, s')"
    by simp
  from Cons.IH [OF inv_push [OF Cons.prems(1)] this] show ?case .
qed

lemma abandon_eq:
  "abandon jobs sh k =
     (if sh k = Pending \<and> k \<in> cell ` set jobs then Ready_exception Broken_promise else sh k)"
  by (induction jobs arbitrary: sh) auto

lemma inv_destroy_members:
  assumes "inv s" and "stop s"
  shows "inv (destroy_members s)"
proof -
  from assms(1) have rs: "results_sound s" and d: "dequeued_accounted s"
    by (simp_all add: inv_def)
  have "results_sound (destroy_members s)"
    unfolding results_sound_def
  proof (intro allI impI)
    fix k assume k: "shared (destroy_members s) k \<noteq> Pending"
    show "(\<exists>j \<in> set (deq_log (destroy_members s)). cell j = k
            \<and> shared (destroy_members s) k = invoke_task j)
        \<or> (destroyed (destroy_members s) \<and> k \<in> cell ` set (tasks (destroy_members s))
            \<and> shared (destroy_members s) k = Ready_exception Broken_promise)"
    proof (cases "shared s k = Pending")
      case True
      with k show ?thesis
        by (simp add: destroy_members_def abandon_eq split: if_splits)
    next
      case False
      then have same: "shared (destroy_members s) k = shared s k"
        by (simp add: destroy_members_def abandon_eq)
      from rs False have "(\<exists>j \<in> set (deq_log s). cell j = k \<and> shared s k = invoke_task j)
          \<or> (destroyed s \<and> k \<in> cell ` set (tasks s) \<and> shared s k = Ready_exception Broken_promise)"
        by (simp add: results_sound_def)
      with same show ?thesis
        by (auto simp: destroy_members_def)
    qed
  qed
  moreover have "dequeued_accounted (destroy_members s)"
    using d by (auto simp: dequeued_accounted_def destroy_members_def abandon_eq)
  moreover have "fifo (destroy_members s) = fifo s"
    and "cells_fresh (destroy_members s) = cells_fresh s"
    and "running_logged (destroy_members s) = running_logged s"
    and "stopped_when_terminating (destroy_members s) = stopped_when_terminating s"
    by (simp_all add: fifo_def cells_fresh_def running_logged_def
        stopped_when_terminating_def destroy_members_def)
  moreover from assms(2) have "stopped_when_destroyed (destroy_members s)"
    by (simp add: stopped_when_destroyed_def destroy_members_def)
  moreover note assms(1)
  ultimately show ?thesis by (simp add: inv_def)
qed

lemma inv_terminate_return: "inv s \<Longrightarrow> stop s \<Longrightarrow> inv (terminate_return d c s)"
  by (simp add: terminate_return_def inv_set_client inv_destroy_members)

lemma inv_terminate_exchange: "inv s \<Longrightarrow> inv (terminate_exchange d c s)"
  by (simp add: terminate_exchange_def inv_terminate_return inv_set_client inv_stop)

lemma nth_update_other:
  "i' < length ws \<Longrightarrow> ws ! i' = W_run j \<Longrightarrow> ws ! i \<noteq> W_run j \<Longrightarrow> ws[i := w] ! i' = W_run j"
  by (cases "i' = i") auto

lemma inv_worker_take:
  assumes "inv s" and i: "i < length (workers s)"
    and idle: "workers s ! i = W_loop \<or> workers s ! i = W_wait"
  shows "inv (worker_take i s)"
proof -
  from idle have not_run: "workers s ! i \<noteq> W_run j" for j by auto
  from assms(1) have f: "fifo s" and c: "cells_fresh s" and r: "running_logged s"
    and rs: "results_sound s" and d: "dequeued_accounted s"
    and sd: "stopped_when_destroyed s" and st: "stopped_when_terminating s"
    by (simp_all add: inv_def)
  have "fifo (worker_take i s)"
    using f by (auto simp: fifo_def worker_take_def split: list.splits)
  moreover have "cells_fresh (worker_take i s)"
    using c by (auto simp: cells_fresh_def worker_take_def split: list.splits)
  moreover have "running_logged (worker_take i s)"
    using r i by (auto simp: running_logged_def worker_take_def nth_list_update split: list.splits if_splits)
  moreover have "results_sound (worker_take i s)"
  proof (cases "stop s")
    case True
    with rs show ?thesis by (simp add: results_sound_def worker_take_def)
  next
    case False
    with sd have nd: "\<not> destroyed s" by (simp add: stopped_when_destroyed_def)
    with rs have "\<forall>k. shared s k \<noteq> Pending \<longrightarrow>
        (\<exists>j \<in> set (deq_log s). cell j = k \<and> shared s k = invoke_task j)"
      by (simp add: results_sound_def)
    then show ?thesis
      unfolding results_sound_def worker_take_def by (auto split: list.splits)
  qed
  moreover have "dequeued_accounted (worker_take i s)"
    unfolding dequeued_accounted_def
  proof
    fix j assume j: "j \<in> set (deq_log (worker_take i s))"
    show "shared (worker_take i s) (cell j) \<noteq> Pending
        \<or> (\<exists>i' < length (workers (worker_take i s)). workers (worker_take i s) ! i' = W_run j)"
    proof (cases "j \<in> set (deq_log s)")
      case True
      with d have "shared s (cell j) \<noteq> Pending \<or> (\<exists>i' < length (workers s). workers s ! i' = W_run j)"
        by (simp add: dequeued_accounted_def)
      then show ?thesis
      proof
        assume "shared s (cell j) \<noteq> Pending"
        then show ?thesis by (simp add: worker_take_def split: list.splits)
      next
        assume "\<exists>i' < length (workers s). workers s ! i' = W_run j"
        then obtain i' where "i' < length (workers s)" "workers s ! i' = W_run j" by blast
        with not_run [of j] have "\<And>w. (workers s)[i := w] ! i' = W_run j"
          by (simp add: nth_update_other)
        with \<open>i' < length (workers s)\<close> show ?thesis
          by (auto simp: worker_take_def split: list.splits)
      qed
    next
      case False
      with j have "\<not> stop s \<and> (\<exists>rest. tasks s = j # rest)"
        by (auto simp: worker_take_def split: list.splits if_splits)
      with i show ?thesis
        by (auto simp: worker_take_def)
    qed
  qed
  moreover have "stopped_when_destroyed (worker_take i s)"
    using sd by (auto simp: stopped_when_destroyed_def worker_take_def split: list.splits)
  moreover have "stopped_when_terminating (worker_take i s)"
    using st by (auto simp: stopped_when_terminating_def worker_take_def split: list.splits)
  ultimately show ?thesis by (simp add: inv_def)
qed

lemma inv_worker_run:
  assumes "inv s" and i: "i < length (workers s)" and run: "workers s ! i = W_run job"
  shows "inv (worker_run i job s)"
proof -
  from assms(1) have f: "fifo s" and c: "cells_fresh s" and r: "running_logged s"
    and rs: "results_sound s" and d: "dequeued_accounted s"
    and sd: "stopped_when_destroyed s" and st: "stopped_when_terminating s"
    by (simp_all add: inv_def)
  from r i run have logged: "job \<in> set (deq_log s)"
    by (simp add: running_logged_def)
  have "fifo (worker_run i job s)"
    using f by (simp add: fifo_def worker_run_def)
  moreover have "cells_fresh (worker_run i job s)"
    using c by (simp add: cells_fresh_def worker_run_def)
  moreover have "running_logged (worker_run i job s)"
    using r i by (auto simp: running_logged_def worker_run_def nth_list_update split: if_splits)
  moreover have "results_sound (worker_run i job s)"
    using rs logged unfolding results_sound_def worker_run_def by auto
  moreover have "dequeued_accounted (worker_run i job s)"
    unfolding dequeued_accounted_def
  proof
    fix j assume "j \<in> set (deq_log (worker_run i job s))"
    then have j: "j \<in> set (deq_log s)" by (simp add: worker_run_def)
    show "shared (worker_run i job s) (cell j) \<noteq> Pending
        \<or> (\<exists>i' < length (workers (worker_run i job s)). workers (worker_run i job s) ! i' = W_run j)"
    proof (cases "cell j = cell job")
      case True
      then show ?thesis by (simp add: worker_run_def)
    next
      case False
      from d j have "shared s (cell j) \<noteq> Pending \<or> (\<exists>i' < length (workers s). workers s ! i' = W_run j)"
        by (simp add: dequeued_accounted_def)
      then show ?thesis
      proof
        assume "shared s (cell j) \<noteq> Pending"
        with False show ?thesis by (simp add: worker_run_def)
      next
        assume "\<exists>i' < length (workers s). workers s ! i' = W_run j"
        then obtain i' where i': "i' < length (workers s)" "workers s ! i' = W_run j" by blast
        with run False have "i' \<noteq> i" by auto
        with i' show ?thesis by (auto simp: worker_run_def)
      qed
    qed
  qed
  moreover have "stopped_when_destroyed (worker_run i job s)"
    using sd by (simp add: stopped_when_destroyed_def worker_run_def)
  moreover have "stopped_when_terminating (worker_run i job s)"
    using st by (simp add: stopped_when_terminating_def worker_run_def)
  ultimately show ?thesis by (simp add: inv_def)
qed

lemma inv_worker_func: "inv s \<Longrightarrow> i < length (workers s) \<Longrightarrow> inv (worker_func i s)"
  by (simp add: worker_func_def inv_worker_take inv_worker_run split: worker.splits)

lemma inv_invoke: "inv s \<Longrightarrow> inv (invoke c call s)"
  by (cases call) (simp_all add: inv_set_client inv_terminate_exchange)

lemma inv_resume: "inv s \<Longrightarrow> inv (resume c s)"
proof (cases "clients s c")
  case (In_map_get func xs)
  obtain futures s' where m: "map_get_loop func xs [] s = (futures, s')"
    by (cases "map_get_loop func xs [] s")
  assume "inv s"
  with m have "inv s'" by (simp add: inv_map_get_loop)
  with m In_map_get show ?thesis by (simp add: resume_def inv_set_client)
next
  case (In_terminate d k)
  assume i: "inv s"
  with In_terminate have "stop s"
    by (auto simp: inv_def stopped_when_terminating_def)
  with i In_terminate show ?thesis
    by (simp add: resume_def inv_set_client inv_terminate_return)
qed (simp_all add: resume_def inv_set_client inv_push inv_map_loop inv_terminate_exchange)

lemma inv_step: "inv s \<Longrightarrow> inv (step e s)"
  by (cases e) (simp_all add: inv_worker_func inv_invoke inv_resume)

lemma inv_exec: "inv s \<Longrightarrow> inv (exec es s)"
  by (induction es arbitrary: s) (simp_all add: inv_step)

subsection \<open>The loops of the map calls\<close>

lemma push_all_Nil [simp]: "push_all void func [] s = s"
  by (simp add: push_all_def)

lemma push_all_Cons:
  "push_all void func (x # xs) s = push_all void (after_bind func) xs (push void (target func) x s)"
  by (simp add: push_all_def push_def)

lemma map_loop_eq: "map_loop func xs s = push_all True func xs s"
  by (induction xs arbitrary: s func) (simp_all add: push_all_Cons)

lemma map_get_loop_eq:
  "map_get_loop func xs futures s =
     (futures @ map cell (jobs_from (next_cell s) False func xs), push_all False func xs s)"
proof (induction xs arbitrary: s futures func)
  case Nil
  then show ?case by simp
next
  case (Cons x xs)
  have "next_cell (push False (target func) x s) = Suc (next_cell s)"
    by (simp add: push_def)
  with Cons.IH [of "after_bind func" "futures @ [next_cell s]" "push False (target func) x s"]
  show ?case
    by (simp add: push_all_Cons)
qed

lemma cells_jobs_from: "map cell (jobs_from n void func xs) = [n ..< n + length xs]"
  by (induction xs arbitrary: n func) (simp_all add: upt_conv_Cons del: upt_Suc)

lemma jobs_from_nth:
  "i < length xs \<Longrightarrow> jobs_from n void func xs ! i = Job (n + i) void (nth_bound func i) (xs ! i)"
proof (induction xs arbitrary: n func i)
  case Nil
  then show ?case by simp
next
  case (Cons x xs)
  then show ?case by (cases i) simp_all
qed

lemma length_jobs_from [simp]: "length (jobs_from n void func xs) = length xs"
  by (induction xs arbitrary: n func) simp_all

lemma nth_bound_Lvalue [simp]: "nth_bound (Lvalue f) i = f"
  by (induction i) simp_all

lemma nth_bound_Rvalue: "nth_bound (Rvalue f left) i = (if i = 0 then f else left)"
proof (cases i)
  case 0
  then show ?thesis by simp
next
  case (Suc k)
  have "nth_bound (Rvalue left left) k = left" for k
    by (induction k) simp_all
  with Suc show ?thesis by simp
qed

subsection \<open>What the steps leave alone\<close>

lemma stop_step: "stop s \<Longrightarrow> stop (step e s)"
proof (cases e)
  case (Worker i)
  then show "stop s \<Longrightarrow> ?thesis"
    by (auto simp: worker_func_def worker_take_def worker_run_def split: worker.splits list.splits)
next
  case (Invoke c call)
  then show "stop s \<Longrightarrow> ?thesis"
    by (cases call) (auto simp: set_client_def terminate_exchange_def terminate_return_def destroy_members_def)
next
  case (Resume c)
  then show "stop s \<Longrightarrow> ?thesis"
    by (auto simp: resume_def set_client_def terminate_exchange_def terminate_return_def
        destroy_members_def push_def map_loop_eq map_get_loop_eq push_all_def split: client.splits)
qed

lemma stop_exec: "stop s \<Longrightarrow> stop (exec es s)"
  by (induction es arbitrary: s) (simp_all add: stop_step)

lemma length_workers_step: "length (workers (step e s)) = length (workers s)"
proof (cases e)
  case (Worker i)
  then show ?thesis
    by (auto simp: worker_func_def worker_take_def worker_run_def split: worker.splits list.splits)
next
  case (Invoke c call)
  then show ?thesis
    by (cases call) (auto simp: set_client_def terminate_exchange_def terminate_return_def destroy_members_def)
next
  case (Resume c)
  then show ?thesis
    by (auto simp: resume_def set_client_def terminate_exchange_def terminate_return_def
        destroy_members_def push_def map_loop_eq map_get_loop_eq push_all_def split: client.splits)
qed

lemma length_workers_exec: "length (workers (exec es s)) = length (workers s)"
  by (induction es arbitrary: s) (simp_all add: length_workers_step)

lemma enq_log_step: "\<exists>new. enq_log (step e s) = enq_log s @ new"
proof (cases e)
  case (Worker i)
  then show ?thesis
    by (auto simp: worker_func_def worker_take_def worker_run_def split: worker.splits list.splits)
next
  case (Invoke c call)
  then show ?thesis
    by (cases call) (auto simp: set_client_def terminate_exchange_def terminate_return_def destroy_members_def)
next
  case (Resume c)
  then show ?thesis
    by (auto simp: resume_def set_client_def terminate_exchange_def terminate_return_def
        destroy_members_def push_def map_loop_eq map_get_loop_eq push_all_def split: client.splits)
qed

lemma enq_log_exec: "\<exists>new. enq_log (exec es s) = enq_log s @ new"
proof (induction es arbitrary: s)
  case Nil
  then show ?case by simp
next
  case (Cons e es)
  from enq_log_step [of e s] obtain n1 where "enq_log (step e s) = enq_log s @ n1" ..
  moreover from Cons.IH [of "step e s"] obtain n2
    where "enq_log (exec es (step e s)) = enq_log (step e s) @ n2" ..
  ultimately show ?case by simp
qed

lemma enq_log_exec_mono: "j \<in> set (enq_log s) \<Longrightarrow> j \<in> set (enq_log (exec es s))"
  using enq_log_exec [of es s] by auto

lemma clients_step_other: "caller e \<noteq> Some c \<Longrightarrow> clients (step e s) c = clients s c"
proof (cases e)
  case (Worker i)
  then show ?thesis
    by (auto simp: worker_func_def worker_take_def worker_run_def split: worker.splits list.splits)
next
  case (Invoke c' call)
  then show "caller e \<noteq> Some c \<Longrightarrow> ?thesis"
    by (cases call) (auto simp: set_client_def terminate_exchange_def terminate_return_def destroy_members_def)
next
  case (Resume c')
  then show "caller e \<noteq> Some c \<Longrightarrow> ?thesis"
    by (auto simp: resume_def set_client_def terminate_exchange_def terminate_return_def
        destroy_members_def push_def map_loop_eq map_get_loop_eq push_all_def split: client.splits)
qed

lemma clients_exec_other:
  "\<forall>e \<in> set es. caller e \<noteq> Some c \<Longrightarrow> clients (exec es s) c = clients s c"
  by (induction es arbitrary: s) (simp_all add: clients_step_other)

subsection \<open>A future holds the outcome of its own task\<close>

lemma future_of_job:
  assumes "inv s" and "j \<in> set (enq_log s)"
  shows "shared s (cell j) = Pending
    \<or> (j \<in> set (deq_log s) \<and> shared s (cell j) = invoke_task j)
    \<or> (destroyed s \<and> j \<in> set (tasks s) \<and> shared s (cell j) = Ready_exception Broken_promise)"
proof (cases "shared s (cell j) = Pending")
  case True
  then show ?thesis by simp
next
  case False
  from assms(1) have inj: "inj_on cell (set (enq_log s))"
    by (simp add: inv_def cells_fresh_def distinct_map)
  from assms(1) have e: "enq_log s = deq_log s @ tasks s"
    by (simp add: inv_def fifo_def)
  from assms(1) False
  have "(\<exists>j' \<in> set (deq_log s). cell j' = cell j \<and> shared s (cell j) = invoke_task j')
      \<or> (destroyed s \<and> cell j \<in> cell ` set (tasks s)
          \<and> shared s (cell j) = Ready_exception Broken_promise)"
    unfolding inv_def results_sound_def by blast
  then show ?thesis
  proof
    assume "\<exists>j' \<in> set (deq_log s). cell j' = cell j \<and> shared s (cell j) = invoke_task j'"
    then obtain j' where j': "j' \<in> set (deq_log s)" "cell j' = cell j"
      "shared s (cell j) = invoke_task j'"
      by blast
    from j'(1) e have "j' \<in> set (enq_log s)" by simp
    with inj assms(2) j'(2) have "j' = j" by (auto dest: inj_onD)
    with j' show ?thesis by simp
  next
    assume b: "destroyed s \<and> cell j \<in> cell ` set (tasks s)
        \<and> shared s (cell j) = Ready_exception Broken_promise"
    then obtain j' where j': "j' \<in> set (tasks s)" "cell j' = cell j" by auto
    from j'(1) e have "j' \<in> set (enq_log s)" by simp
    with inj assms(2) j'(2) have "j' = j" by (auto dest: inj_onD)
    with j' b show ?thesis by simp
  qed
qed


lemma resume_map_get:
  "clients s c = In_map_get func xs \<Longrightarrow>
     step (Resume c) s =
       set_client c (Returned (Ret_futures [next_cell s ..< next_cell s + length xs]))
         (push_all False func xs s)"
  by (simp add: resume_def map_get_loop_eq cells_jobs_from)

lemma invoke_task_value:
  "invoke_task (Job h False (\<lambda>x. Inr (g x)) x) = Ready_value (g x)"
  by (simp add: invoke_task_def)

text \<open>
  \<^verbatim>\<open>map_get\<close> for any callable, lvalue or rvalue: the future of element \<open>i\<close> is not ready,
  or a worker popped the task and it holds the outcome of the callable that task got, or
  the pool was destroyed with the task in the queue and it holds \<open>Broken_promise\<close>.
\<close>

lemma map_get_futures:
  assumes "inv s1" and "clients s1 c = In_map_get func xs" and "i < length xs"
    and "s3 = exec after (step (Resume c) s1)"
    and "job = Job (next_cell s1 + i) False (nth_bound func i) (xs ! i)"
  shows "shared s3 (next_cell s1 + i) = Pending
    \<or> (job \<in> set (deq_log s3) \<and> shared s3 (next_cell s1 + i) = invoke_task job)
    \<or> (destroyed s3 \<and> job \<in> set (tasks s3)
        \<and> shared s3 (next_cell s1 + i) = Ready_exception Broken_promise)"
proof -
  from assms(2)
  have s2: "step (Resume c) s1 =
      set_client c (Returned (Ret_futures [next_cell s1 ..< next_cell s1 + length xs]))
        (push_all False func xs s1)"
    by (rule resume_map_get)
  from assms(3) have "jobs_from (next_cell s1) False func xs ! i = job"
    unfolding assms(5) by (rule jobs_from_nth)
  with assms(3) have "job \<in> set (jobs_from (next_cell s1) False func xs)"
    by (metis length_jobs_from nth_mem)
  with s2 have "job \<in> set (enq_log (step (Resume c) s1))"
    by (simp add: set_client_def push_all_def)
  then have "job \<in> set (enq_log s3)"
    unfolding assms(4) by (rule enq_log_exec_mono)
  moreover from assms(1) have "inv s3"
    unfolding assms(4) by (intro inv_exec inv_step)
  ultimately have "shared s3 (cell job) = Pending
      \<or> (job \<in> set (deq_log s3) \<and> shared s3 (cell job) = invoke_task job)
      \<or> (destroyed s3 \<and> job \<in> set (tasks s3)
          \<and> shared s3 (cell job) = Ready_exception Broken_promise)"
    by (rule future_of_job [rotated])
  then show ?thesis by (simp add: assms(5))
qed

text \<open>
  \<^verbatim>\<open>map_get\<close> with a callable passed as an lvalue, which every \<^verbatim>\<open>std::bind\<close> of the loop
  copies: the call returns one future for each element, all different, and a value read
  from the \<open>i\<close>-th future is \<open>g (xs ! i)\<close>, unless the pool was destroyed with the task
  in the queue.
\<close>

lemma map_get_lvalue:
  fixes g :: "'a \<Rightarrow> 'r" and s0 :: "('a, 'r) pool"
  assumes "thread_pool P n = Inr s0" and "s = exec before s0"
    and "\<not> stop s" and "at_boundary (clients s c)"
    and "\<forall>e \<in> set between. caller e \<noteq> Some c"
    and "s1 = exec between (step (Invoke c (Call_map_get (Lvalue (\<lambda>x. Inr (g x))) xs)) s)"
  shows "\<exists>futures. clients (step (Resume c) s1) c = Returned (Ret_futures futures)
    \<and> length futures = length xs \<and> distinct futures
    \<and> (\<forall>i < length xs. \<forall>after r.
          future_get (shared (exec after (step (Resume c) s1)) (futures ! i)) = Some r
          \<longrightarrow> r = Inr (Some (g (xs ! i)))
            \<or> (destroyed (exec after (step (Resume c) s1)) \<and> r = Inl Broken_promise))"
proof -
  let ?f = "\<lambda>x. Inr (g x) :: exn + 'r"
  let ?futures = "[next_cell s1 ..< next_cell s1 + length xs]"
  from assms(1,2) have "inv s" by (simp add: inv_thread_pool inv_exec)
  then have inv1: "inv s1" unfolding assms(6) by (intro inv_exec inv_step)
  from assms(3,4) have "clients (step (Invoke c (Call_map_get (Lvalue ?f) xs)) s) c = In_map_get (Lvalue ?f) xs"
    by (simp add: set_client_def)
  with assms(5,6) have pc: "clients s1 c = In_map_get (Lvalue ?f) xs"
    by (simp add: clients_exec_other)
  then have "step (Resume c) s1 = set_client c (Returned (Ret_futures ?futures)) (push_all False (Lvalue ?f) xs s1)"
    by (rule resume_map_get)
  then have ret: "clients (step (Resume c) s1) c = Returned (Ret_futures ?futures)"
    by (simp add: set_client_def)
  have "r = Inr (Some (g (xs ! i))) \<or> (destroyed (exec after (step (Resume c) s1)) \<and> r = Inl Broken_promise)"
    if i: "i < length xs"
      and get: "future_get (shared (exec after (step (Resume c) s1)) (?futures ! i)) = Some r"
    for i after r
  proof -
    let ?s3 = "exec after (step (Resume c) s1)"
    let ?job = "Job (next_cell s1 + i) False ?f (xs ! i)"
    have "shared ?s3 (next_cell s1 + i) = Pending
      \<or> (?job \<in> set (deq_log ?s3) \<and> shared ?s3 (next_cell s1 + i) = invoke_task ?job)
      \<or> (destroyed ?s3 \<and> ?job \<in> set (tasks ?s3)
          \<and> shared ?s3 (next_cell s1 + i) = Ready_exception Broken_promise)"
      using inv1 pc i refl by (rule map_get_futures) (simp add: nth_bound_Lvalue)
    moreover have "future_get (shared ?s3 (next_cell s1 + i)) = Some r"
      using i get by simp
    ultimately show ?thesis
      by (auto simp: invoke_task_value)
  qed
  then have "\<forall>i < length xs. \<forall>after r.
      future_get (shared (exec after (step (Resume c) s1)) (?futures ! i)) = Some r
      \<longrightarrow> r = Inr (Some (g (xs ! i)))
        \<or> (destroyed (exec after (step (Resume c) s1)) \<and> r = Inl Broken_promise)"
    by blast
  moreover have "length ?futures = length xs" and "distinct ?futures" by simp_all
  ultimately show ?thesis using ret by blast
qed

text \<open>
  \<^verbatim>\<open>map_get\<close> with a callable passed as an rvalue, which the first \<^verbatim>\<open>std::bind\<close> of the
  loop moves from: a value read from the future of any element but the first is the
  outcome of what the move left behind, not of the callable.
\<close>

lemma map_get_rvalue:
  assumes "inv s1" and "clients s1 c = In_map_get (Rvalue f left) xs"
    and "0 < i" and "i < length xs"
    and "s3 = exec after (step (Resume c) s1)"
    and "future_get (shared s3 (next_cell s1 + i)) = Some r"
  shows "Some r = future_get (invoke_task (Job (next_cell s1 + i) False left (xs ! i)))
    \<or> (destroyed s3 \<and> r = Inl Broken_promise)"
proof -
  from assms(3) obtain k where k: "i = Suc k" by (cases i) simp_all
  have "shared s3 (next_cell s1 + i) = Pending
      \<or> (Job (next_cell s1 + i) False left (xs ! i) \<in> set (deq_log s3)
          \<and> shared s3 (next_cell s1 + i) = invoke_task (Job (next_cell s1 + i) False left (xs ! i)))
      \<or> (destroyed s3 \<and> Job (next_cell s1 + i) False left (xs ! i) \<in> set (tasks s3)
          \<and> shared s3 (next_cell s1 + i) = Ready_exception Broken_promise)"
    using assms(1,2,4,5) by (rule map_get_futures) (simp add: k nth_bound_Rvalue)
  with assms(6) show ?thesis by auto
qed

lemma thread_pool_fresh:
  "num_workers \<noteq> 0 \<Longrightarrow> thread_pool Policy num_workers = Inr (fresh_pool Policy (unat num_workers))"
  by (simp add: thread_pool_def fresh_pool_def spawn_replicate)

lemma pool_size_exec: "pool_size (exec es s) = pool_size s"
  by (simp add: pool_size_def length_workers_exec)

lemma invoke_stopped:
  assumes "stop s" and "at_boundary (clients s c)"
    and "call \<in> {Call_apply f x, Call_apply_get f x, Call_map func xs, Call_map_get func xs, Call_join}"
  shows "step (Invoke c call) s = s\<lparr>clients := (clients s)(c := Raised stopped_error)\<rparr>"
  using assms by (auto simp: set_client_def)

lemma stop_after_terminate:
  "at_boundary (clients s0 c0) \<Longrightarrow> stop (exec es (step (Invoke c0 Call_terminate) s0))"
  by (rule stop_exec)
    (simp add: terminate_exchange_def terminate_return_def destroy_members_def set_client_def)

subsection \<open>The destructor, alone with the workers\<close>

lemma worker_func_frame:
  assumes "i < length (workers s)"
  shows "stop (worker_func i s) = stop s"
    and "clients (worker_func i s) = clients s"
    and "enq_log (worker_func i s) = enq_log s"
    and "length (workers (worker_func i s)) = length (workers s)"
    and "tasks s = [] \<Longrightarrow> tasks (worker_func i s) = []"
    and "stop s \<Longrightarrow> tasks (worker_func i s) = tasks s"
    and "stop s \<Longrightarrow> deq_log (worker_func i s) = deq_log s"
    and "k < length (workers s) \<Longrightarrow> workers s ! k = W_exit \<Longrightarrow> workers (worker_func i s) ! k = W_exit"
  using assms
  by (auto simp: worker_func_def worker_take_def worker_run_def nth_list_update
      split: worker.splits list.splits)

lemma worker_func_exited: "workers s ! i = W_exit \<Longrightarrow> worker_func i s = s"
  by (simp add: worker_func_def)

lemma draining_worker:
  assumes "i < length (workers s)" and "draining s (clients s c)"
  shows "draining (worker_func i s) (clients (worker_func i s) c)"
proof -
  note f = worker_func_frame [OF assms(1)]
  show ?thesis
  proof (cases "clients s c")
    case (In_terminate d k)
    with assms(2) f show ?thesis by auto
  next
    case (Returned v)
    with assms(2) f show ?thesis by (auto simp: all_exited_def)
  qed (use assms(2) f in auto)
qed

lemma draining_resume:
  assumes "draining s (clients s c)"
  shows "draining (resume c s) (clients (resume c s) c)"
proof (cases "clients s c")
  case (In_join d)
  with assms show ?thesis by (auto simp: resume_def set_client_def)
next
  case At_terminate
  with assms show ?thesis by (auto simp: resume_def terminate_exchange_def set_client_def)
next
  case (In_terminate d k)
  with assms show ?thesis
    by (auto simp: resume_def set_client_def terminate_return_def destroy_members_def
        all_exited_def less_Suc_eq)
next
  case (Returned v)
  with assms show ?thesis by (auto simp: resume_def)
qed (use assms in auto)

lemma draining_step:
  "quiet c e \<Longrightarrow> draining s (clients s c) \<Longrightarrow> draining (step e s) (clients (step e s) c)"
  by (cases e) (auto simp: draining_worker draining_resume)

lemma draining_exec:
  "\<forall>e \<in> set es. quiet c e \<Longrightarrow> draining s (clients s c) \<Longrightarrow>
     draining (exec es s) (clients (exec es s) c)"
proof (induction es arbitrary: s)
  case Nil
  then show ?case by simp
next
  case (Cons e es)
  from Cons.prems have "draining (step e s) (clients (step e s) c)"
    by (simp add: draining_step)
  with Cons.IH [of "step e s"] Cons.prems(1) show ?case by simp
qed

lemma stopping_worker:
  assumes "i < length (workers s)" and "stopping s (clients s c)"
  shows "stopping (worker_func i s) (clients (worker_func i s) c)
    \<and> tasks (worker_func i s) = tasks s \<and> deq_log (worker_func i s) = deq_log s"
proof -
  note f = worker_func_frame [OF assms(1)]
  show ?thesis
  proof (cases "clients s c")
    case (In_terminate d k)
    with assms(2) f show ?thesis by auto
  next
    case (Returned v)
    with assms have "workers s ! i = W_exit" by (simp add: all_exited_def)
    then have "worker_func i s = s" by (rule worker_func_exited)
    with assms(2) show ?thesis by simp
  qed (use assms(2) in auto)
qed

lemma stopping_resume:
  assumes "stopping s (clients s c)"
  shows "stopping (resume c s) (clients (resume c s) c)
    \<and> tasks (resume c s) = tasks s \<and> deq_log (resume c s) = deq_log s"
proof (cases "clients s c")
  case (In_terminate d k)
  with assms show ?thesis
    by (auto simp: resume_def set_client_def terminate_return_def destroy_members_def
        abandon_eq all_exited_def less_Suc_eq)
next
  case (Returned v)
  with assms show ?thesis by (auto simp: resume_def)
qed (use assms in auto)

lemma stopping_step:
  "quiet c e \<Longrightarrow> stopping s (clients s c) \<Longrightarrow>
     stopping (step e s) (clients (step e s) c)
     \<and> tasks (step e s) = tasks s \<and> deq_log (step e s) = deq_log s"
  by (cases e) (auto simp: stopping_worker stopping_resume)

lemma stopping_exec:
  "\<forall>e \<in> set es. quiet c e \<Longrightarrow> stopping s (clients s c) \<Longrightarrow>
     stopping (exec es s) (clients (exec es s) c)
     \<and> tasks (exec es s) = tasks s \<and> deq_log (exec es s) = deq_log s"
proof (induction es arbitrary: s)
  case Nil
  then show ?case by simp
next
  case (Cons e es)
  from Cons.prems have "quiet c e" by simp
  from stopping_step [OF this Cons.prems(2)]
  have st: "stopping (step e s) (clients (step e s) c)
      \<and> tasks (step e s) = tasks s \<and> deq_log (step e s) = deq_log s" .
  with Cons.IH [of "step e s"] Cons.prems(1) show ?case by simp
qed

lemma queued_not_dequeued:
  assumes "inv s" and "j \<in> set (tasks s)"
  shows "j \<notin> set (deq_log s)"
proof -
  from assms(1) have e: "enq_log s = deq_log s @ tasks s"
    by (simp add: inv_def fifo_def)
  from assms(1) have "distinct (map cell (enq_log s))"
    by (simp add: inv_def cells_fresh_def)
  then have "distinct (map cell (deq_log s @ tasks s))"
    unfolding e .
  then have "cell ` set (deq_log s) \<inter> cell ` set (tasks s) = {}"
    by simp
  with assms(2) show ?thesis by blast
qed

lemma all_done:
  assumes "inv s" and "all_exited s" and "j \<in> set (deq_log s)"
  shows "shared s (cell j) = invoke_task j"
proof -
  from assms have "shared s (cell j) \<noteq> Pending"
    by (auto simp: inv_def dequeued_accounted_def all_exited_def)
  moreover from assms(1,3) have "j \<in> set (enq_log s)"
    by (simp add: inv_def fifo_def)
  moreover from assms(1,3) have "j \<notin> set (tasks s)"
    using queued_not_dequeued by blast
  ultimately show ?thesis using future_of_job [OF assms(1), of j] by blast
qed

text \<open>
  The destructor of a pool of policy \<^verbatim>\<open>JOIN\<close> that is not stopped, run by a thread alone
  with the workers: when it returns, the pool is stopped, the queue is empty, every
  worker has returned and every task ever pushed has run.
\<close>

lemma destructor_join_completes:
  assumes "inv s" and "policy s = JOIN" and "\<not> stop s" and "at_boundary (clients s c)"
    and "\<forall>e \<in> set es. quiet c e"
    and "s' = exec es (step (Invoke c Call_destroy) s)"
    and "clients s' c = Returned v"
  shows "stop s' \<and> tasks s' = [] \<and> all_exited s'
    \<and> (\<forall>j \<in> set (enq_log s'). shared s' (cell j) = invoke_task j)"
proof -
  let ?s1 = "step (Invoke c Call_destroy) s"
  from assms(2,3,4) have "draining ?s1 (clients ?s1 c)"
    by (simp add: set_client_def)
  with assms(5) have "draining s' (clients s' c)"
    unfolding assms(6) by (rule draining_exec)
  with assms(7) have d: "stop s'" "tasks s' = []" "all_exited s'" by simp_all
  from assms(1) have i: "inv s'"
    unfolding assms(6) by (intro inv_exec inv_step)
  with d(2) have "enq_log s' = deq_log s'" by (simp add: inv_def fifo_def)
  with i d(3) have "\<forall>j \<in> set (enq_log s'). shared s' (cell j) = invoke_task j"
    by (simp add: all_done)
  with d show ?thesis by blast
qed

text \<open>
  The destructor of a pool of policy \<^verbatim>\<open>TERMINATE\<close> that is not stopped, run by a thread
  alone with the workers: when it returns, the pool is stopped, every worker has
  returned, no task was popped since the call, and the future of every task left in
  the queue holds \<open>Broken_promise\<close>.
\<close>

lemma destructor_terminate_discards:
  assumes "inv s" and "policy s = TERMINATE" and "\<not> stop s" and "at_boundary (clients s c)"
    and "\<forall>e \<in> set es. quiet c e"
    and "s' = exec es (step (Invoke c Call_destroy) s)"
    and "clients s' c = Returned v"
  shows "stop s' \<and> all_exited s' \<and> tasks s' = tasks s \<and> deq_log s' = deq_log s
    \<and> (\<forall>j \<in> set (tasks s). shared s' (cell j) = Ready_exception Broken_promise)"
proof -
  let ?s1 = "step (Invoke c Call_destroy) s"
  from assms(2,3,4) have s1: "stopping ?s1 (clients ?s1 c)" "tasks ?s1 = tasks s" "deq_log ?s1 = deq_log s"
    by (simp_all add: set_client_def terminate_exchange_def JOIN_def TERMINATE_def)
  from stopping_exec [OF assms(5) s1(1)] s1(2,3)
  have st: "stopping s' (clients s' c)" "tasks s' = tasks s" "deq_log s' = deq_log s"
    unfolding assms(6) by simp_all
  with assms(7) have d: "stop s'" "all_exited s'"
    and ready: "\<forall>j \<in> set (tasks s'). shared s' (cell j) \<noteq> Pending"
    by simp_all
  from assms(1) have i: "inv s'"
    unfolding assms(6) by (intro inv_exec inv_step)
  have "shared s' (cell j) = Ready_exception Broken_promise" if "j \<in> set (tasks s')" for j
  proof -
    from i that have "j \<in> set (enq_log s')" by (simp add: inv_def fifo_def)
    moreover from i that have "j \<notin> set (deq_log s')" by (rule queued_not_dequeued)
    moreover from ready that have "shared s' (cell j) \<noteq> Pending" by simp
    ultimately show ?thesis using future_of_job [OF i, of j] by blast
  qed
  with d st show ?thesis by simp
qed

subsection \<open>The example pools, evaluated\<close>

lemmas pool_eval =
  fresh_pool_def resume_def set_client_def push_def worker_func_def worker_take_def
  worker_run_def terminate_exchange_def terminate_return_def destroy_members_def
  invoke_task_def JOIN_def TERMINATE_def push_all_def map_loop_eq map_get_loop_eq

lemma terminated_pool_eq:
  "terminated_pool Policy =
     \<lparr>policy = Policy, workers = [W_exit], tasks = [], stop = True,
      shared = (\<lambda>_. Pending), next_cell = 0, clients = (\<lambda>_. Idle)(0 := Returned Ret_void),
      enq_log = [], deq_log = [], destroyed = False\<rparr>"
  by (simp add: terminated_pool_def pool_eval)

lemma throwing_pool_eq:
  "throwing_pool =
     \<lparr>policy = False, workers = [W_run (Job 0 True boom 1)], tasks = [Job 1 False nap 5],
      stop = False, shared = (\<lambda>_. Pending), next_cell = 2,
      clients = (\<lambda>_. Idle)(0 := Returned (Ret_future 1)),
      enq_log = [Job 0 True boom 1, Job 1 False nap 5], deq_log = [Job 0 True boom 1],
      destroyed = False\<rparr>"
  by (simp add: throwing_pool_def pool_eval numeral_2_eq_2)

lemma busy_pool_eq:
  "busy_pool =
     \<lparr>policy = False, workers = [W_run (Job 0 True nap 15)], tasks = [],
      stop = False, shared = (\<lambda>_. Pending), next_cell = 1,
      clients = (\<lambda>_. Idle)(0 := In_join False),
      enq_log = [Job 0 True nap 15], deq_log = [Job 0 True nap 15], destroyed = False\<rparr>"
  by (simp add: busy_pool_def pool_eval)

lemma mapped_pool_eq:
  "mapped_pool =
     \<lparr>policy = False, workers = [W_loop, W_loop],
      tasks = [Job 0 False (\<lambda>x. Inr (collatz x)) 1, Job 1 False (\<lambda>x. Inr (collatz x)) 2,
               Job 2 False (\<lambda>x. Inr (collatz x)) 3],
      stop = False, shared = (\<lambda>_. Pending), next_cell = 3,
      clients = (\<lambda>_. Idle)(0 := Returned (Ret_futures [0, 1, 2])),
      enq_log = [Job 0 False (\<lambda>x. Inr (collatz x)) 1, Job 1 False (\<lambda>x. Inr (collatz x)) 2,
                 Job 2 False (\<lambda>x. Inr (collatz x)) 3],
      deq_log = [], destroyed = False\<rparr>"
  by (simp add: mapped_pool_def pool_eval numeral_2_eq_2 numeral_3_eq_3)

lemma mapped_early_eq:
  "mapped_early =
     \<lparr>policy = False, workers = [W_run (Job 0 False (\<lambda>x. Inr (collatz x)) 1), W_loop],
      tasks = [Job 2 False (\<lambda>x. Inr (collatz x)) 3],
      stop = False, shared = (\<lambda>_. Pending)(1 := Ready_value (collatz 2)), next_cell = 3,
      clients = (\<lambda>_. Idle)(0 := Returned (Ret_futures [0, 1, 2])),
      enq_log = [Job 0 False (\<lambda>x. Inr (collatz x)) 1, Job 1 False (\<lambda>x. Inr (collatz x)) 2,
                 Job 2 False (\<lambda>x. Inr (collatz x)) 3],
      deq_log = [Job 0 False (\<lambda>x. Inr (collatz x)) 1, Job 1 False (\<lambda>x. Inr (collatz x)) 2],
      destroyed = False\<rparr>"
  by (simp add: mapped_early_def mapped_pool_eq worker_func_def worker_take_def worker_run_def
      invoke_task_def)

lemma mapped_late_eq:
  "mapped_late =
     \<lparr>policy = False, workers = [W_loop, W_loop], tasks = [],
      stop = False,
      shared = (\<lambda>_. Pending)(1 := Ready_value (collatz 2), 0 := Ready_value (collatz 1),
                 2 := Ready_value (collatz 3)),
      next_cell = 3,
      clients = (\<lambda>_. Idle)(0 := Returned (Ret_futures [0, 1, 2])),
      enq_log = [Job 0 False (\<lambda>x. Inr (collatz x)) 1, Job 1 False (\<lambda>x. Inr (collatz x)) 2,
                 Job 2 False (\<lambda>x. Inr (collatz x)) 3],
      deq_log = [Job 0 False (\<lambda>x. Inr (collatz x)) 1, Job 1 False (\<lambda>x. Inr (collatz x)) 2,
                 Job 2 False (\<lambda>x. Inr (collatz x)) 3],
      destroyed = False\<rparr>"
  by (simp add: mapped_late_def mapped_early_eq worker_func_def worker_take_def worker_run_def
      invoke_task_def)

lemma moved_pool_eq:
  "moved_pool =
     \<lparr>policy = False, workers = [W_loop],
      tasks = [Job 0 False (\<lambda>x. Inr (collatz x)) 1, Job 1 False empty_function 2,
               Job 2 False empty_function 3],
      stop = False, shared = (\<lambda>_. Pending), next_cell = 3,
      clients = (\<lambda>_. Idle)(0 := Returned (Ret_futures [0, 1, 2])),
      enq_log = [Job 0 False (\<lambda>x. Inr (collatz x)) 1, Job 1 False empty_function 2,
                 Job 2 False empty_function 3],
      deq_log = [], destroyed = False\<rparr>"
  by (simp add: moved_pool_def pool_eval numeral_2_eq_2 numeral_3_eq_3)

lemma moved_done_eq:
  "moved_done =
     \<lparr>policy = False, workers = [W_loop], tasks = [],
      stop = False,
      shared = (\<lambda>_. Pending)(0 := Ready_value (collatz 1), 1 := Ready_exception Bad_function_call,
                 2 := Ready_exception Bad_function_call),
      next_cell = 3,
      clients = (\<lambda>_. Idle)(0 := Returned (Ret_futures [0, 1, 2])),
      enq_log = [Job 0 False (\<lambda>x. Inr (collatz x)) 1, Job 1 False empty_function 2,
                 Job 2 False empty_function 3],
      deq_log = [Job 0 False (\<lambda>x. Inr (collatz x)) 1, Job 1 False empty_function 2,
                 Job 2 False empty_function 3],
      destroyed = False\<rparr>"
proof -
  let ?half = "exec [Worker 0, Worker 0, Worker 0] moved_pool"
  have h: "?half =
     \<lparr>policy = False, workers = [W_run (Job 1 False empty_function 2)],
      tasks = [Job 2 False empty_function 3],
      stop = False, shared = (\<lambda>_. Pending)(0 := Ready_value (collatz 1)), next_cell = 3,
      clients = (\<lambda>_. Idle)(0 := Returned (Ret_futures [0, 1, 2])),
      enq_log = [Job 0 False (\<lambda>x. Inr (collatz x)) 1, Job 1 False empty_function 2,
                 Job 2 False empty_function 3],
      deq_log = [Job 0 False (\<lambda>x. Inr (collatz x)) 1, Job 1 False empty_function 2],
      destroyed = False\<rparr>"
    by (simp add: moved_pool_eq worker_func_def worker_take_def worker_run_def invoke_task_def)
  have "moved_done = exec [Worker 0, Worker 0, Worker 0] ?half"
    by (simp only: moved_done_def exec.simps)
  also have "\<dots> = \<lparr>policy = False, workers = [W_loop], tasks = [],
      stop = False,
      shared = (\<lambda>_. Pending)(0 := Ready_value (collatz 1), 1 := Ready_exception Bad_function_call,
                 2 := Ready_exception Bad_function_call),
      next_cell = 3,
      clients = (\<lambda>_. Idle)(0 := Returned (Ret_futures [0, 1, 2])),
      enq_log = [Job 0 False (\<lambda>x. Inr (collatz x)) 1, Job 1 False empty_function 2,
                 Job 2 False empty_function 3],
      deq_log = [Job 0 False (\<lambda>x. Inr (collatz x)) 1, Job 1 False empty_function 2,
                 Job 2 False empty_function 3],
      destroyed = False\<rparr>"
    unfolding h
    by (simp add: worker_func_def worker_take_def worker_run_def invoke_task_def
        empty_function_def)
  finally show ?thesis .
qed



section \<open>The claims\<close>

text \<open>
  Claim C1, as amended. A thread in \<^verbatim>\<open>join\<close> returns exactly when it finds the queue
  empty, and waits otherwise. When it returns, every task pushed so far has been
  popped by a worker, and each of them has run to completion or is still running in a
  worker: \<^verbatim>\<open>join\<close> waits for the queue, not for the workers.
\<close>

theorem join_returns_on_empty_queue:
  assumes "thread_pool P n = Inr s0" and "s = exec es s0" and "clients s c = In_join False"
  shows "(clients (step (Resume c) s) c = Returned Ret_void \<longleftrightarrow> tasks s = [])
    \<and> (tasks s \<noteq> [] \<longrightarrow> step (Resume c) s = s)
    \<and> (tasks s = [] \<longrightarrow> deq_log s = enq_log s
          \<and> (\<forall>j \<in> set (enq_log s). shared s (cell j) \<noteq> Pending
                \<or> (\<exists>i < length (workers s). workers s ! i = W_run j)))"
proof -
  from assms(1,2) have i: "inv s" by (simp add: inv_thread_pool inv_exec)
  from assms(3) have "clients (step (Resume c) s) c = Returned Ret_void \<longleftrightarrow> tasks s = []"
    by (simp add: resume_def set_client_def)
  moreover from assms(3) have "tasks s \<noteq> [] \<longrightarrow> step (Resume c) s = s"
    by (simp add: resume_def)
  moreover have "deq_log s = enq_log s" if "tasks s = []"
    using i that by (simp add: inv_def fifo_def)
  moreover have "\<forall>j \<in> set (enq_log s). shared s (cell j) \<noteq> Pending
       \<or> (\<exists>i < length (workers s). workers s ! i = W_run j)" if "tasks s = []"
    using i that by (simp add: inv_def fifo_def dequeued_accounted_def)
  ultimately show ?thesis by blast
qed

text \<open>
  The theorem at \<open>busy_pool\<close>: the queue is empty, so \<^verbatim>\<open>join\<close> returns.
\<close>

theorem join_returns_on_empty_queue_witness:
  "thread_pool TERMINATE 1 = Inr (fresh_pool TERMINATE 1 :: (nat, unit) pool)
    \<and> clients busy_pool 0 = In_join False
    \<and> tasks busy_pool = []
    \<and> clients (step (Resume 0) busy_pool) 0 = Returned Ret_void
    \<and> deq_log busy_pool = enq_log busy_pool"
proof -
  let ?init = "fresh_pool TERMINATE 1 :: (nat, unit) pool"
  have h1: "thread_pool TERMINATE 1 = Inr ?init"
    using thread_pool_fresh [of 1 TERMINATE] by simp
  have h2: "busy_pool = exec [Invoke 0 (Call_apply nap 15), Resume 0, Worker 0, Invoke 0 Call_join] ?init"
    by (simp only: busy_pool_def)
  have h3: "clients busy_pool 0 = In_join False" by (simp add: busy_pool_eq)
  have t: "tasks busy_pool = []" by (simp add: busy_pool_eq)
  from join_returns_on_empty_queue [OF h1 h2 h3] h1 h3 t show ?thesis
    by blast
qed

text \<open>
  Claim C1 as stated fails. One worker, one task submitted by \<^verbatim>\<open>apply\<close>, as in
  \<^verbatim>\<open>test_apply\<close>: the worker pops the task and runs it, the thread calls \<^verbatim>\<open>join\<close>,
  finds the queue empty and returns, while the worker still runs the task and the
  task's shared state is not ready.
\<close>

theorem join_returns_while_task_runs:
  "thread_pool TERMINATE 1 = Inr (fresh_pool TERMINATE 1 :: (nat, unit) pool)
    \<and> clients (exec [Invoke 0 (Call_apply nap 15), Resume 0, Worker 0, Invoke 0 Call_join, Resume 0]
          (fresh_pool TERMINATE 1)) 0 = Returned Ret_void
    \<and> enq_log (exec [Invoke 0 (Call_apply nap 15), Resume 0, Worker 0, Invoke 0 Call_join, Resume 0]
          (fresh_pool TERMINATE 1)) = [Job 0 True nap 15]
    \<and> workers (exec [Invoke 0 (Call_apply nap 15), Resume 0, Worker 0, Invoke 0 Call_join, Resume 0]
          (fresh_pool TERMINATE 1)) = [W_run (Job 0 True nap 15)]
    \<and> shared (exec [Invoke 0 (Call_apply nap 15), Resume 0, Worker 0, Invoke 0 Call_join, Resume 0]
          (fresh_pool TERMINATE 1)) 0 = Pending"
proof -
  have "exec [Invoke 0 (Call_apply nap 15), Resume 0, Worker 0, Invoke 0 Call_join, Resume 0]
      (fresh_pool TERMINATE 1) = step (Resume 0) busy_pool"
    by (simp only: busy_pool_def exec.simps)
  moreover have "thread_pool TERMINATE 1 = Inr (fresh_pool TERMINATE 1 :: (nat, unit) pool)"
    using thread_pool_fresh [of 1 TERMINATE] by simp
  moreover have "step (Resume 0) busy_pool = set_client 0 (Returned Ret_void) busy_pool"
    by (simp add: busy_pool_eq resume_def)
  ultimately show ?thesis
    by (simp add: busy_pool_eq set_client_def)
qed

text \<open>
  Claim C2. A worker runs a task whose body throws \<open>e\<close>. The step ends with the
  worker back at the top of its loop, not returned; the queue, the stop flag, the other
  workers, every calling thread and every other shared state are as before, so nothing
  is thrown into any thread; the task's own shared state holds \<open>e\<close>, and
  \<^verbatim>\<open>future::get\<close> on it rethrows \<open>e\<close>. That holds for a task with a handle and for a
  task of \<^verbatim>\<open>apply\<close> or \<^verbatim>\<open>map\<close>, whose shared state nobody reads. With the pool not
  stopped and a task waiting, the worker's next turn pops and runs that task.
\<close>

theorem task_exception_contained:
  assumes "i < length (workers s)" and "workers s ! i = W_run job"
    and "callable job (bound job) = Inl e"
  shows "workers (step (Worker i) s) = (workers s)[i := W_loop]
    \<and> tasks (step (Worker i) s) = tasks s
    \<and> stop (step (Worker i) s) = stop s
    \<and> clients (step (Worker i) s) = clients s
    \<and> (\<forall>k. k \<noteq> cell job \<longrightarrow> shared (step (Worker i) s) k = shared s k)
    \<and> future_get (shared (step (Worker i) s) (cell job)) = Some (Inl e)
    \<and> (\<forall>next rest. \<not> stop s \<and> tasks s = next # rest \<longrightarrow>
          workers (exec [Worker i, Worker i] s) ! i = W_run next
          \<and> tasks (exec [Worker i, Worker i] s) = rest)"
  using assms
  by (simp add: worker_func_def worker_run_def worker_take_def invoke_task_def)

text \<open>
  The theorem at \<open>throwing_pool\<close>: the task of \<^verbatim>\<open>apply\<close> throws, the worker goes on
  with the task of \<^verbatim>\<open>apply_get\<close> behind it, and that task's future gets its value.
\<close>

theorem task_exception_contained_witness:
  "workers throwing_pool ! 0 = W_run (Job 0 True boom 1)
    \<and> boom 1 = Inl (Task_failure ''boom'')
    \<and> workers (step (Worker 0) throwing_pool) = [W_loop]
    \<and> clients (step (Worker 0) throwing_pool) = clients throwing_pool
    \<and> future_get (shared (step (Worker 0) throwing_pool) 0) = Some (Inl (Task_failure ''boom''))
    \<and> workers (exec [Worker 0, Worker 0] throwing_pool) ! 0 = W_run (Job 1 False nap 5)
    \<and> future_get (shared (exec [Worker 0, Worker 0, Worker 0] throwing_pool) 1) = Some (Inr (Some ()))"
proof -
  have h1: "0 < length (workers throwing_pool)" by (simp add: throwing_pool_eq)
  have h2: "workers throwing_pool ! 0 = W_run (Job 0 True boom 1)" by (simp add: throwing_pool_eq)
  have h3: "callable (Job 0 True boom 1) (bound (Job 0 True boom (1 :: nat))) = Inl (Task_failure ''boom'')"
    by (simp add: boom_def)
  have t: "\<not> stop throwing_pool" "tasks throwing_pool = [Job 1 False nap 5]"
    "(workers throwing_pool)[0 := W_loop] = [W_loop]"
    by (simp_all add: throwing_pool_eq)
  have l: "future_get (shared (exec [Worker 0, Worker 0, Worker 0] throwing_pool) 1) = Some (Inr (Some ()))"
    by (simp add: throwing_pool_eq pool_eval nap_def)
  note T = task_exception_contained [OF h1 h2 h3]
  from T have a: "workers (step (Worker 0) throwing_pool) = (workers throwing_pool)[0 := W_loop]"
    by blast
  from T have b: "clients (step (Worker 0) throwing_pool) = clients throwing_pool"
    by blast
  from T have c: "future_get (shared (step (Worker 0) throwing_pool) (cell (Job 0 True boom (1 :: nat))))
      = Some (Inl (Task_failure ''boom''))"
    by blast
  from T t(1,2) have d: "workers (exec [Worker 0, Worker 0] throwing_pool) ! 0 = W_run (Job 1 False nap 5)"
    by blast
  have e: "boom 1 = Inl (Task_failure ''boom'')" by (simp add: boom_def)
  from a [unfolded t(3)] b c [unfolded job.sel] d e h2 l show ?thesis
    by blast
qed

text \<open>
  Claim C3. Once a thread has called \<^verbatim>\<open>terminate\<close> (the exchange has set \<^verbatim>\<open>stop\<close>;
  the call need not even have returned), and whatever has run since, each of
  \<^verbatim>\<open>apply\<close>, \<^verbatim>\<open>apply_get\<close>, \<^verbatim>\<open>map\<close>, \<^verbatim>\<open>map_get\<close> and \<^verbatim>\<open>join\<close> throws the
  \<^verbatim>\<open>runtime_error\<close> of a terminated pool, and the state of the pool is the one before
  the call but for the caller holding the exception: queue and workers are unchanged.
\<close>

theorem stopped_pool_rejects:
  assumes "at_boundary (clients s0 c0)" and "s = exec es (step (Invoke c0 Call_terminate) s0)"
    and "at_boundary (clients s c)"
    and "call \<in> {Call_apply f x, Call_apply_get f x, Call_map func xs, Call_map_get func xs, Call_join}"
  shows "stop s
    \<and> step (Invoke c call) s = s\<lparr>clients := (clients s)(c := Raised stopped_error)\<rparr>
    \<and> clients (step (Invoke c call) s) c
        = Raised (Runtime_error ''Thread pool invoked after it was terminated.'')
    \<and> tasks (step (Invoke c call) s) = tasks s
    \<and> workers (step (Invoke c call) s) = workers s"
proof -
  have st: "stop s" unfolding assms(2) using assms(1) by (rule stop_after_terminate)
  from invoke_stopped [OF st assms(3,4)]
  have eq: "step (Invoke c call) s = s\<lparr>clients := (clients s)(c := Raised stopped_error)\<rparr>" .
  with st show ?thesis by (simp add: stopped_error_def)
qed

text \<open>
  The theorem at \<open>terminated_pool\<close>, for a \<^verbatim>\<open>map\<close> by the thread that terminated the
  pool and a \<^verbatim>\<open>join\<close> by another thread.
\<close>

theorem stopped_pool_rejects_witness:
  "clients (terminated_pool TERMINATE) 0 = Returned Ret_void
    \<and> stop (terminated_pool TERMINATE)
    \<and> clients (step (Invoke 0 (Call_map (Lvalue nap) [10, 10])) (terminated_pool TERMINATE)) 0
        = Raised (Runtime_error ''Thread pool invoked after it was terminated.'')
    \<and> tasks (step (Invoke 0 (Call_map (Lvalue nap) [10, 10])) (terminated_pool TERMINATE)) = []
    \<and> workers (step (Invoke 0 (Call_map (Lvalue nap) [10, 10])) (terminated_pool TERMINATE)) = [W_exit]
    \<and> clients (step (Invoke 1 Call_join) (terminated_pool TERMINATE)) 1
        = Raised (Runtime_error ''Thread pool invoked after it was terminated.'')"
proof -
  let ?init = "fresh_pool TERMINATE 1 :: (nat, unit) pool"
  let ?s = "terminated_pool TERMINATE"
  have h1: "at_boundary (clients ?init 0)" by (simp add: fresh_pool_def)
  have h2: "?s = exec [Worker 0, Resume 0, Resume 0] (step (Invoke 0 Call_terminate) ?init)"
    by (simp add: terminated_pool_def)
  have h3: "at_boundary (clients ?s 0)" "at_boundary (clients ?s 1)"
    by (simp_all add: terminated_pool_eq)
  have h4: "Call_map (Lvalue nap) [10, 10]
      \<in> {Call_apply nap 10, Call_apply_get nap 10, Call_map (Lvalue nap) [10, 10], Call_map_get (Lvalue nap) [10, 10], Call_join}"
    by simp
  have h5: "Call_join
      \<in> {Call_apply nap 10, Call_apply_get nap 10, Call_map (Lvalue nap) [10, 10], Call_map_get (Lvalue nap) [10, 10], Call_join}"
    by simp
  have t: "clients ?s 0 = Returned Ret_void" "tasks ?s = []" "workers ?s = [W_exit]"
    by (simp_all add: terminated_pool_eq)
  note M = stopped_pool_rejects [OF h1 h2 h3(1) h4]
  note J = stopped_pool_rejects [OF h1 h2 h3(2) h5]
  from M have "tasks (step (Invoke 0 (Call_map (Lvalue nap) [10, 10])) ?s) = tasks ?s"
    and "workers (step (Invoke 0 (Call_map (Lvalue nap) [10, 10])) ?s) = workers ?s"
    by blast+
  then have "tasks (step (Invoke 0 (Call_map (Lvalue nap) [10, 10])) ?s) = []"
    and "workers (step (Invoke 0 (Call_map (Lvalue nap) [10, 10])) ?s) = [W_exit]"
    by (simp_all only: t)
  with M J t(1) show ?thesis by blast
qed

text \<open>
  Claim C4 fails for a callable passed as an rvalue. \<^verbatim>\<open>map_get\<close> binds
  \<^verbatim>\<open>std::forward<Func>(func)\<close> to each element inside its loop, so the first bind moves
  the callable into the first task and every later task gets what the move left
  behind. With a \<^verbatim>\<open>std::function\<close> temporary made from \<open>collatz\<close>, over \<open>[1, 2, 3]\<close>, on
  a pool of one worker that is not stopped: the call returns three futures, and when
  the worker has run the three tasks the first holds \<open>collatz 1 = 4\<close>, while the second
  and the third hold \<^verbatim>\<open>bad_function_call\<close> and not \<open>collatz 2 = 1\<close> and
  \<open>collatz 3 = 10\<close>. The same call with the callable passed as an lvalue, on the pool
  of \<^verbatim>\<open>test_map_get\<close>, gives 4, 1 and 10 (\<open>map_get_lvalue\<close> above, for every pure
  callable, every list and every run; \<open>map_get_rvalue\<close> for the futures after the first).
\<close>

theorem map_get_moved_from_callable:
  "thread_pool TERMINATE 1 = Inr (fresh_pool TERMINATE 1 :: (32 word, 32 word) pool)
    \<and> \<not> stop (fresh_pool TERMINATE 1 :: (32 word, 32 word) pool)
    \<and> clients (exec [Invoke 0 (Call_map_get (Rvalue (\<lambda>x. Inr (collatz x)) empty_function) [1, 2, 3]),
          Resume 0] (fresh_pool TERMINATE 1)) 0 = Returned (Ret_futures [0, 1, 2])
    \<and> map (\<lambda>h. future_get (shared (exec
          [Invoke 0 (Call_map_get (Rvalue (\<lambda>x. Inr (collatz x)) empty_function) [1, 2, 3]),
           Resume 0, Worker 0, Worker 0, Worker 0, Worker 0, Worker 0, Worker 0]
          (fresh_pool TERMINATE 1)) h)) [0, 1, 2]
        = [Some (Inr (Some 4)), Some (Inl Bad_function_call), Some (Inl Bad_function_call)]
    \<and> map collatz [1, 2, 3] = [4, 1, 10]
    \<and> map (\<lambda>h. future_get (shared (exec
          [Invoke 0 (Call_map_get (Lvalue (\<lambda>x. Inr (collatz x))) [1, 2, 3]),
           Resume 0, Worker 0, Worker 1, Worker 1, Worker 1, Worker 0, Worker 1]
          (fresh_pool TERMINATE 2)) h)) [0, 1, 2]
        = [Some (Inr (Some 4)), Some (Inr (Some 1)), Some (Inr (Some 10))]"
proof -
  have a: "exec [Invoke 0 (Call_map_get (Rvalue (\<lambda>x. Inr (collatz x)) empty_function) [1, 2, 3]),
      Resume 0] (fresh_pool TERMINATE 1) = moved_pool"
    by (simp only: moved_pool_def)
  have b: "exec [Invoke 0 (Call_map_get (Rvalue (\<lambda>x. Inr (collatz x)) empty_function) [1, 2, 3]),
      Resume 0, Worker 0, Worker 0, Worker 0, Worker 0, Worker 0, Worker 0]
      (fresh_pool TERMINATE 1) = moved_done"
    by (simp only: moved_done_def moved_pool_def exec.simps)
  have c: "exec [Invoke 0 (Call_map_get (Lvalue (\<lambda>x. Inr (collatz x))) [1, 2, 3]),
      Resume 0, Worker 0, Worker 1, Worker 1, Worker 1, Worker 0, Worker 1]
      (fresh_pool TERMINATE 2) = mapped_late"
    by (simp only: mapped_late_def mapped_early_def mapped_pool_def exec.simps)
  have v: "collatz 1 = 4" "collatz 2 = 1" "collatz 3 = 10"
    by (simp_all add: collatz_def)
  have "thread_pool TERMINATE 1 = Inr (fresh_pool TERMINATE 1 :: (32 word, 32 word) pool)"
    using thread_pool_fresh [of 1 TERMINATE] by simp
  moreover have "\<not> stop (fresh_pool TERMINATE 1 :: (32 word, 32 word) pool)"
    by (simp add: fresh_pool_def)
  moreover have "clients moved_pool 0 = Returned (Ret_futures [0, 1, 2])"
    by (simp add: moved_pool_eq)
  moreover have "map (\<lambda>h. future_get (shared moved_done h)) [0, 1, 2]
      = [Some (Inr (Some 4)), Some (Inl Bad_function_call), Some (Inl Bad_function_call)]"
    by (simp add: moved_done_eq v)
  moreover have "map collatz [1, 2, 3] = [4, 1, 10]"
    by (simp add: v)
  moreover have "map (\<lambda>h. future_get (shared mapped_late h)) [0, 1, 2]
      = [Some (Inr (Some 4)), Some (Inr (Some 1)), Some (Inr (Some 10))]"
    by (simp add: mapped_late_eq v)
  ultimately show ?thesis unfolding a b c by blast
qed




text \<open>
  Claim C6 fails on a pool of policy \<^verbatim>\<open>JOIN\<close> on which \<^verbatim>\<open>terminate\<close> has run: the
  destructor calls \<^verbatim>\<open>join\<close>, which throws since \<^verbatim>\<open>stop\<close> is set, so the exception
  leaves the destructor and \<^verbatim>\<open>terminate\<close> is not reached. On the same pool with policy
  \<^verbatim>\<open>TERMINATE\<close> the destructor returns. (On a pool that is not stopped the destructor
  does what the claim says: \<open>destructor_join_completes\<close> and
  \<open>destructor_terminate_discards\<close> above.)
\<close>

theorem destructor_after_terminate_throws:
  "thread_pool JOIN 1 = Inr (fresh_pool JOIN 1 :: (nat, unit) pool)
    \<and> clients (exec [Invoke 0 Call_terminate, Worker 0, Resume 0, Resume 0] (fresh_pool JOIN 1 :: (nat, unit) pool)) 0
        = Returned Ret_void
    \<and> clients (exec [Invoke 0 Call_terminate, Worker 0, Resume 0, Resume 0, Invoke 0 Call_destroy]
          (fresh_pool JOIN 1 :: (nat, unit) pool)) 0
        = Raised (Runtime_error ''Thread pool invoked after it was terminated.'')
    \<and> clients (exec [Invoke 0 Call_terminate, Worker 0, Resume 0, Resume 0, Invoke 0 Call_destroy]
          (fresh_pool TERMINATE 1 :: (nat, unit) pool)) 0
        = Returned Ret_void"
proof -
  have a: "exec [Invoke 0 Call_terminate, Worker 0, Resume 0, Resume 0, Invoke 0 Call_destroy]
      (fresh_pool P 1 :: (nat, unit) pool) = step (Invoke 0 Call_destroy) (terminated_pool P)" for P
    by (simp only: terminated_pool_def exec.simps)
  have b: "exec [Invoke 0 Call_terminate, Worker 0, Resume 0, Resume 0]
      (fresh_pool P 1 :: (nat, unit) pool) = terminated_pool P" for P
    by (simp only: terminated_pool_def)
  have c: "thread_pool JOIN 1 = Inr (fresh_pool JOIN 1 :: (nat, unit) pool)"
    using thread_pool_fresh [of 1 JOIN] by simp
  have d: "clients (terminated_pool JOIN) 0 = Returned Ret_void"
    by (simp add: terminated_pool_eq)
  have e: "clients (step (Invoke 0 Call_destroy) (terminated_pool JOIN)) 0
      = Raised (Runtime_error ''Thread pool invoked after it was terminated.'')"
    by (simp add: terminated_pool_eq set_client_def stopped_error_def JOIN_def)
  have f: "clients (step (Invoke 0 Call_destroy) (terminated_pool TERMINATE)) 0 = Returned Ret_void"
    by (simp add: terminated_pool_eq set_client_def terminate_exchange_def terminate_return_def
        destroy_members_def JOIN_def TERMINATE_def)
  from c d e f show ?thesis unfolding a b by blast
qed

text \<open>
  Claim C7. After a thread's call of \<^verbatim>\<open>terminate\<close> has returned, \<^verbatim>\<open>stop\<close> is set
  and stays set in every run; a second call by the same thread leaves the whole state
  as it is, and a call by any other thread returns at once and changes nothing but
  that thread's return.
\<close>

theorem terminate_idempotent:
  assumes "at_boundary (clients s0 c)" and "s = exec es (step (Invoke c Call_terminate) s0)"
    and "clients s c = Returned Ret_void"
  shows "stop s
    \<and> step (Invoke c Call_terminate) s = s
    \<and> (\<forall>c'. at_boundary (clients s c') \<longrightarrow>
          step (Invoke c' Call_terminate) s = s\<lparr>clients := (clients s)(c' := Returned Ret_void)\<rparr>)
    \<and> (\<forall>es'. stop (exec es' s))"
proof -
  have st: "stop s" unfolding assms(2) using assms(1) by (rule stop_after_terminate)
  have "(clients s)(c := Returned Ret_void) = clients s"
    using assms(3) by auto
  with st assms(3) have "step (Invoke c Call_terminate) s = s"
    by (simp add: terminate_exchange_def terminate_return_def set_client_def)
  moreover from st have "\<forall>c'. at_boundary (clients s c') \<longrightarrow>
      step (Invoke c' Call_terminate) s = s\<lparr>clients := (clients s)(c' := Returned Ret_void)\<rparr>"
    by (simp add: terminate_exchange_def terminate_return_def set_client_def)
  moreover from st have "\<forall>es'. stop (exec es' s)" by (simp add: stop_exec)
  ultimately show ?thesis using st by blast
qed

text \<open>
  The theorem at \<open>terminated_pool\<close>: a second \<^verbatim>\<open>terminate\<close>, and whatever the thread and
  the worker do after it, give the same state.
\<close>

theorem terminate_idempotent_witness:
  "clients (terminated_pool JOIN) 0 = Returned Ret_void
    \<and> stop (terminated_pool JOIN)
    \<and> step (Invoke 0 Call_terminate) (terminated_pool JOIN) = terminated_pool JOIN
    \<and> exec [Invoke 0 Call_terminate, Resume 0, Worker 0] (terminated_pool JOIN) = terminated_pool JOIN
    \<and> stop (exec [Invoke 0 Call_terminate, Resume 0, Worker 0] (terminated_pool JOIN))"
proof -
  let ?init = "fresh_pool JOIN 1 :: (nat, unit) pool"
  let ?s = "terminated_pool JOIN"
  have h1: "at_boundary (clients ?init 0)" by (simp add: fresh_pool_def)
  have h2: "?s = exec [Worker 0, Resume 0, Resume 0] (step (Invoke 0 Call_terminate) ?init)"
    by (simp add: terminated_pool_def)
  have h3: "clients ?s 0 = Returned Ret_void" by (simp add: terminated_pool_eq)
  note T = terminate_idempotent [OF h1 h2 h3]
  then have a: "step (Invoke 0 Call_terminate) ?s = ?s" by blast
  have "step (Worker 0) (step (Resume 0) ?s) = ?s"
    by (simp add: terminated_pool_eq resume_def worker_func_def)
  then have b: "exec [Invoke 0 Call_terminate, Resume 0, Worker 0] ?s = ?s"
    by (simp only: exec.simps a)
  from T a b h3 show ?thesis by metis
qed

text \<open>
  Claim C8. In every state a pool reaches, the tasks pushed so far, in the order of
  their pushes, are the tasks popped so far, in the order of their pops, followed by
  the queue: the \<open>k\<close>-th task popped is the \<open>k\<close>-th task pushed.
\<close>

theorem fifo_dispatch:
  assumes "thread_pool P n = Inr s0" and "s = exec es s0"
  shows "enq_log s = deq_log s @ tasks s
    \<and> (\<forall>k < length (deq_log s). deq_log s ! k = enq_log s ! k)"
proof -
  from assms have "inv s" by (simp add: inv_thread_pool inv_exec)
  then have "enq_log s = deq_log s @ tasks s" by (simp add: inv_def fifo_def)
  then show ?thesis by (simp add: nth_append)
qed

text \<open>
  The theorem at a pool with two workers and three tasks pushed by one \<^verbatim>\<open>map\<close>, after
  worker 1 and then worker 0 have popped: they hold the first two tasks, in that order.
\<close>

theorem fifo_dispatch_witness:
  "thread_pool TERMINATE 2 = Inr (fresh_pool TERMINATE 2 :: (nat, unit) pool)
    \<and> enq_log (exec [Invoke 0 (Call_map (Lvalue nap) [10, 20, 30]), Resume 0, Worker 1, Worker 0]
          (fresh_pool TERMINATE 2))
        = [Job 0 True nap 10, Job 1 True nap 20, Job 2 True nap 30]
    \<and> deq_log (exec [Invoke 0 (Call_map (Lvalue nap) [10, 20, 30]), Resume 0, Worker 1, Worker 0]
          (fresh_pool TERMINATE 2))
        = [Job 0 True nap 10, Job 1 True nap 20]
    \<and> tasks (exec [Invoke 0 (Call_map (Lvalue nap) [10, 20, 30]), Resume 0, Worker 1, Worker 0]
          (fresh_pool TERMINATE 2))
        = [Job 2 True nap 30]
    \<and> workers (exec [Invoke 0 (Call_map (Lvalue nap) [10, 20, 30]), Resume 0, Worker 1, Worker 0]
          (fresh_pool TERMINATE 2))
        = [W_run (Job 1 True nap 20), W_run (Job 0 True nap 10)]"
proof -
  let ?init = "fresh_pool TERMINATE 2 :: (nat, unit) pool"
  let ?es = "[Invoke 0 (Call_map (Lvalue nap) [10, 20, 30]), Resume 0, Worker 1, Worker 0] :: (nat, unit) event list"
  have h1: "thread_pool TERMINATE 2 = Inr ?init"
    using thread_pool_fresh [of 2 TERMINATE] by simp
  have d: "deq_log (exec ?es ?init) = [Job 0 True nap 10, Job 1 True nap 20]"
    by (simp add: pool_eval numeral_2_eq_2)
  have t: "tasks (exec ?es ?init) = [Job 2 True nap 30]"
    by (simp add: pool_eval numeral_2_eq_2)
  have w: "workers (exec ?es ?init) = [W_run (Job 1 True nap 20), W_run (Job 0 True nap 10)]"
    by (simp add: pool_eval numeral_2_eq_2)
  from fifo_dispatch [OF h1 refl, of ?es] have "enq_log (exec ?es ?init) = deq_log (exec ?es ?init) @ tasks (exec ?es ?init)"
    by blast
  then have "enq_log (exec ?es ?init) = [Job 0 True nap 10, Job 1 True nap 20, Job 2 True nap 30]"
    unfolding d t by simp
  with h1 d t w show ?thesis by blast
qed

text \<open>
  Claim C9. The default constructor is the counted constructor at the hardware
  concurrency the host reports, so it throws the \<^verbatim>\<open>length_error\<close> when the host
  reports 0. For \<open>n \<ge> 1\<close> construction returns a pool of \<open>n\<close> workers, and \<^verbatim>\<open>size()\<close>
  is \<open>n\<close> then and in every state the pool reaches.
\<close>

theorem constructor_size:
  fixes n hw :: "32 word"
  shows "thread_pool_default P hw = (thread_pool P hw :: exn + ('a, 'r) pool)
    \<and> thread_pool_default P 0
        = (Inl (Length_error ''Number of workers must be positive.'') :: exn + ('a, 'r) pool)
    \<and> (1 \<le> n \<longrightarrow>
         (\<exists>s :: ('a, 'r) pool. thread_pool P n = Inr s
            \<and> workers s = replicate (unat n) W_loop
            \<and> pool_size s = unat n
            \<and> (\<forall>es. pool_size (exec es s) = unat n)))"
proof -
  have "thread_pool_default P hw = (thread_pool P hw :: exn + ('a, 'r) pool)"
    by (simp add: thread_pool_default_def)
  moreover have "thread_pool_default P 0
      = (Inl (Length_error ''Number of workers must be positive.'') :: exn + ('a, 'r) pool)"
    by (simp add: thread_pool_default_def thread_pool_def)
  moreover have "\<exists>s :: ('a, 'r) pool. thread_pool P n = Inr s
      \<and> workers s = replicate (unat n) W_loop \<and> pool_size s = unat n
      \<and> (\<forall>es. pool_size (exec es s) = unat n)" if "1 \<le> n"
  proof -
    from that have "n \<noteq> 0" by auto
    then have "thread_pool P n = Inr (fresh_pool P (unat n) :: ('a, 'r) pool)"
      by (rule thread_pool_fresh)
    moreover have "workers (fresh_pool P (unat n) :: ('a, 'r) pool) = replicate (unat n) W_loop"
      by (simp add: fresh_pool_def)
    moreover have "pool_size (fresh_pool P (unat n) :: ('a, 'r) pool) = unat n"
      by (simp add: fresh_pool_def pool_size_def)
    ultimately show ?thesis by (simp add: pool_size_exec)
  qed
  ultimately show ?thesis by blast
qed

text \<open>The theorem at three workers.\<close>

theorem constructor_size_witness:
  "(1 :: 32 word) \<le> 3
    \<and> thread_pool_default TERMINATE 0
        = (Inl (Length_error ''Number of workers must be positive.'') :: exn + (nat, nat) pool)
    \<and> (\<exists>s :: (nat, nat) pool. thread_pool TERMINATE 3 = Inr s
          \<and> workers s = [W_loop, W_loop, W_loop]
          \<and> pool_size s = 3
          \<and> pool_size (exec [Worker 0, Invoke 0 Call_terminate, Worker 2] s) = 3)"
proof -
  have h: "(1 :: 32 word) \<le> 3" by simp
  have r: "replicate 3 W_loop = [W_loop, W_loop, W_loop :: (nat, nat) worker]"
    by (simp add: numeral_3_eq_3)
  have u: "unat (3 :: 32 word) = 3" by simp
  from constructor_size [of TERMINATE 0 3, where ?'a = nat and ?'r = nat] h
  obtain s :: "(nat, nat) pool" where "thread_pool TERMINATE 3 = Inr s"
    and "workers s = replicate (unat (3 :: 32 word)) W_loop"
    and "pool_size s = unat (3 :: 32 word)"
    and "\<forall>es. pool_size (exec es s) = unat (3 :: 32 word)"
    and z: "thread_pool_default TERMINATE 0
        = (Inl (Length_error ''Number of workers must be positive.'') :: exn + (nat, nat) pool)"
    by blast
  then have "thread_pool TERMINATE 3 = Inr s \<and> workers s = [W_loop, W_loop, W_loop]
      \<and> pool_size s = 3
      \<and> pool_size (exec [Worker 0, Invoke 0 Call_terminate, Worker 2] s) = 3"
    unfolding r u by blast
  with h z show ?thesis by blast
qed

text \<open>
  Claim C10. When \<open>name\<close> is already registered with the callable \<open>old\<close>,
  \<^verbatim>\<open>emplace(name, new)\<close> leaves \<^verbatim>\<open>tests\<close> as it was, so \<open>old\<close> stays registered
  and \<open>new\<close> is not stored, and it erases the recorded result of \<open>name\<close>. The test
  therefore runs again: the next \<^verbatim>\<open>run(name)\<close> calls \<open>old\<close> and records its
  outcome, and so does the next \<^verbatim>\<open>run_all()\<close>, which calls it exactly once.
\<close>

theorem emplace_registered:
  assumes "map_of (tests fr) name = Some old"
  shows "tests (emplace name new fr) = tests fr
    \<and> map_of (tests (emplace name new fr)) name = Some old
    \<and> \<not> executed (emplace name new fr) name
    \<and> (\<exists>fr'. run name (emplace name new fr) = Inr fr'
            \<and> results fr' name = Some (recorded old)
            \<and> calls fr' = calls fr @ [name])
    \<and> (\<exists>fr'. run_all (emplace name new fr) = Inr fr'
            \<and> results fr' name = Some (recorded old)
            \<and> count_list (calls fr') name = Suc (count_list (calls fr) name))"
proof -
  let ?fr = "emplace name new fr"
  have t: "tests ?fr = tests fr"
    using assms by (simp add: emplace_def map_emplace_registered)
  with assms have m: "map_of (tests ?fr) name = Some old" by simp
  have x: "\<not> executed ?fr name" by (simp add: executed_def emplace_def)
  have e: "results ?fr name = None" by (simp add: emplace_def)
  have c: "calls ?fr = calls fr" by (simp add: emplace_def)
  from run_fresh [OF m e] c
  have r1: "\<exists>fr'. run name ?fr = Inr fr' \<and> results fr' name = Some (recorded old)
          \<and> calls fr' = calls fr @ [name]"
    by simp
  from m have k: "name \<in> set (map fst (tests ?fr))"
    by (metis domI dom_map_of_conv_image_fst set_map)
  obtain fr' where r: "run_each (map fst (tests ?fr)) ?fr = Inr fr'"
    using run_each_total [of "map fst (tests ?fr)" ?fr] by auto
  from run_each_once [OF k m e r] c r
  have r2: "\<exists>fr'. run_all ?fr = Inr fr' \<and> results fr' name = Some (recorded old)
          \<and> count_list (calls fr') name = Suc (count_list (calls fr) name)"
    by (simp add: run_all_def)
  from t m x r1 r2 show ?thesis by blast
qed

text \<open>
  The theorem at a framework that registered \<^verbatim>\<open>"apply"\<close> with a passing test and ran
  it, and then registers the name again with a failing one: the passing test stays, its
  result is erased, and running records a pass again.
\<close>

theorem emplace_registered_witness:
  "map_of (tests ran_apply) ''apply'' = Some passing
    \<and> run ''apply'' (emplace ''apply'' passing Framework) = Inr ran_apply
    \<and> executed ran_apply ''apply''
    \<and> tests (emplace ''apply'' failing ran_apply) = tests ran_apply
    \<and> \<not> executed (emplace ''apply'' failing ran_apply) ''apply''
    \<and> (\<exists>fr'. run ''apply'' (emplace ''apply'' failing ran_apply) = Inr fr'
            \<and> results fr' ''apply'' = Some None
            \<and> calls fr' = [''apply'', ''apply''])"
proof -
  have h: "map_of (tests ran_apply) ''apply'' = Some passing"
    by (simp add: ran_apply_def)
  have b: "run ''apply'' (emplace ''apply'' passing Framework) = Inr ran_apply"
    by (simp add: run_def emplace_def map_emplace_def Framework_def executed_def
        passing_def ran_apply_def)
  have x: "executed ran_apply ''apply''"
    by (simp add: executed_def ran_apply_def)
  have p: "recorded passing = None" by (simp add: recorded_def passing_def)
  have c: "calls ran_apply @ [''apply''] = [''apply'', ''apply'']" by (simp add: ran_apply_def)
  from emplace_registered [OF h, of failing] h b x p c show ?thesis
    by simp
qed

end
